theory Spec2Isabelle
  imports Complex_Main "HOL-Library.Multiset"
begin

section \<open>Grids and JavaScript array access\<close>

text \<open>
  A maze is a \<open>number[][]\<close>: a list of rows of numbers, \<open>1\<close> a wall, \<open>0\<close> floor and
  \<open>2\<close> the goal.  Grid indices are integers (the sources compute them with
  \<open>Math.floor\<close>, \<open>Math.round\<close> or integer steps).  Continuous coordinates are
  JavaScript numbers in the sources; they are modelled as finite reals, so \<open>NaN\<close> and the
  infinities of IEEE arithmetic are outside the model.

  Reading \<open>m[y]\<close> outside the array gives \<open>undefined\<close> (here \<open>None\<close>); reading
  \<open>m[y][x]\<close> when \<open>m[y]\<close> is \<open>undefined\<close> throws a \<open>TypeError\<close>.
\<close>

type_synonym grid = "int list list"

datatype error = TypeError | SparseWrite

definition elem_at :: "'a list \<Rightarrow> int \<Rightarrow> 'a option" where
  "elem_at xs i = (if 0 \<le> i \<and> i < int (length xs) then Some (xs ! nat i) else None)"

definition cell_at :: "grid \<Rightarrow> int \<Rightarrow> int \<Rightarrow> error + int option" where
  "cell_at m y x = (case elem_at m y of None \<Rightarrow> Inl TypeError | Some r \<Rightarrow> Inr (elem_at r x))"

text \<open>\<open>Math.round\<close> rounds half-way cases towards plus infinity.\<close>

definition js_round :: "real \<Rightarrow> int" where
  "js_round v = \<lfloor>v + 1 / 2\<rfloor>"

section \<open>The raycasting variant (\<open>SimpleMaze3D\<close>)\<close>

definition MAZE_SIZE :: int where
  "MAZE_SIZE = 11"

definition WALL_HEIGHT :: real where
  "WALL_HEIGHT = 2"

definition MOVE_SPEED :: real where
  "MOVE_SPEED = 3"

definition TURN_SPEED :: real where
  "TURN_SPEED = 2"

text \<open>The 11 by 11 layout shared by the raycasting variant and the top-down variant.\<close>

definition MAZE_LAYOUT :: grid where
  "MAZE_LAYOUT =
    [[1,1,1,1,1,1,1,1,1,1,1],
     [1,0,0,0,1,0,0,0,0,0,1],
     [1,0,1,0,1,0,1,1,1,0,1],
     [1,0,1,0,0,0,1,0,0,0,1],
     [1,0,1,1,1,1,1,0,1,1,1],
     [1,0,0,0,0,0,0,0,1,0,1],
     [1,1,1,0,1,0,1,1,1,0,1],
     [1,0,0,0,1,0,0,0,0,0,1],
     [1,0,1,1,1,1,1,1,1,0,1],
     [1,0,0,0,0,0,0,0,0,2,1],
     [1,1,1,1,1,1,1,1,1,1,1]]"

record Position =
  pos_x :: int
  pos_y :: int

definition CHECKPOINTS :: "Position list" where
  "CHECKPOINTS = [\<lparr>pos_x = 3, pos_y = 3\<rparr>, \<lparr>pos_x = 7, pos_y = 5\<rparr>, \<lparr>pos_x = 5, pos_y = 7\<rparr>]"

record Player =
  player_x :: real
  player_y :: real
  angle :: real

record GameState =
  player :: Player
  checkpoints :: "Position list"
  gameStarted :: bool
  gameCompleted :: bool
  startTime :: int
  currentTime :: int

record Keys =
  key_w :: bool
  key_s :: bool
  key_a :: bool
  key_d :: bool
  ArrowUp :: bool
  ArrowDown :: bool
  ArrowLeft :: bool
  ArrowRight :: bool

text \<open>
  The movement part of the state updater: \<open>moveX\<close> and \<open>moveY\<close> after the forward and
  backward keys, computed from the angle the tick started with.
\<close>

definition move_step :: "Keys \<Rightarrow> real \<Rightarrow> real \<times> real" where
  "move_step k a =
    (let (moveX1, moveY1) =
           (if key_w k \<or> ArrowUp k
            then (0 + cos a * MOVE_SPEED * 0.016, 0 + sin a * MOVE_SPEED * 0.016)
            else (0, 0));
         (moveX2, moveY2) =
           (if key_s k \<or> ArrowDown k
            then (moveX1 - cos a * MOVE_SPEED * 0.016, moveY1 - sin a * MOVE_SPEED * 0.016)
            else (moveX1, moveY1))
     in (moveX2, moveY2))"

text \<open>The four turn tests of the updater, in the order of the source.\<close>

definition turn_step :: "Keys \<Rightarrow> real \<Rightarrow> real" where
  "turn_step k a0 =
    (let a1 = (if key_a k then a0 - TURN_SPEED * 0.016 else a0);
         a2 = (if key_d k then a1 + TURN_SPEED * 0.016 else a1);
         a3 = (if ArrowLeft k then a2 - TURN_SPEED * 0.016 else a2);
         a4 = (if ArrowRight k then a3 + TURN_SPEED * 0.016 else a3)
     in a4)"

definition near_checkpoint :: "real \<Rightarrow> real \<Rightarrow> Position \<Rightarrow> bool" where
  "near_checkpoint newX newY cp \<longleftrightarrow>
     \<bar>real_of_int (pos_x cp) - newX\<bar> < 0.5 \<and> \<bar>real_of_int (pos_y cp) - newY\<bar> < 0.5"

definition collected :: "Position list \<Rightarrow> Position \<Rightarrow> bool" where
  "collected cs cp \<longleftrightarrow> list_ex (\<lambda>c. pos_x c = pos_x cp \<and> pos_y c = pos_y cp) cs"

text \<open>
  One call of \<open>gameLoop\<close>.  The guard reads the flags of the state the callback closes
  over and the updater runs on \<open>prev\<close>; the model takes both from the same state.  The
  flag \<open>canvas\<close> says that the canvas and its 2D context exist.  Rendering does not
  change the state and is modelled separately.
\<close>

definition gameLoop :: "bool \<Rightarrow> Keys \<Rightarrow> GameState \<Rightarrow> error + GameState" where
  "gameLoop canvas k prev =
    (if \<not> gameStarted prev \<or> gameCompleted prev then Inr prev
     else if \<not> canvas then Inr prev
     else
       let p = player prev;
           (moveX, moveY) = move_step k (angle p);
           newAngle = turn_step k (angle p);
           newX = player_x p + moveX;
           newY = player_y p + moveY;
           mapX = \<lfloor>newX\<rfloor>;
           mapY = \<lfloor>newY\<rfloor>;
           turned = prev\<lparr>player := p\<lparr>angle := newAngle\<rparr>\<rparr>
       in if mapX \<ge> 0 \<and> mapX < MAZE_SIZE \<and> mapY \<ge> 0 \<and> mapY < MAZE_SIZE
          then (case cell_at MAZE_LAYOUT mapY mapX of
                  Inl e \<Rightarrow> Inl e
                | Inr v \<Rightarrow>
                    if v \<noteq> Some 1
                    then
                      let newPlayer = \<lparr>player_x = newX, player_y = newY, angle = newAngle\<rparr>
                      in (case find (\<lambda>cp. near_checkpoint newX newY cp
                                           \<and> \<not> collected (checkpoints prev) cp) CHECKPOINTS of
                            Some checkpoint \<Rightarrow>
                              Inr (prev\<lparr>player := newPlayer,
                                         checkpoints := checkpoints prev @ [checkpoint]\<rparr>)
                          | None \<Rightarrow>
                              if v = Some 2
                              then Inr (prev\<lparr>player := newPlayer, gameCompleted := True\<rparr>)
                              else Inr (prev\<lparr>player := newPlayer\<rparr>))
                    else Inr turned)
          else Inr turned)"

section \<open>The top-down variant (\<open>Maze2D\<close>)\<close>

definition CHECKPOINT_POSITIONS :: "Position list" where
  "CHECKPOINT_POSITIONS = [\<lparr>pos_x = 3, pos_y = 3\<rparr>, \<lparr>pos_x = 7, pos_y = 5\<rparr>, \<lparr>pos_x = 5, pos_y = 7\<rparr>]"

record Maze2D =
  playerPos :: Position
  started2D :: bool
  completed2D :: bool
  startTime2D :: int
  currentTime2D :: int
  checkpoints2D :: "Position list"

text \<open>
  \<open>movePlayer(dx, dy)\<close> with the three state setters it calls folded into one state.
  The key handler passes \<open>-1\<close>, \<open>0\<close> or \<open>1\<close>, and the position starts at \<open>(1, 1)\<close>, so
  the coordinates are integers.
\<close>

definition movePlayer :: "int \<Rightarrow> int \<Rightarrow> Maze2D \<Rightarrow> error + Maze2D" where
  "movePlayer dx dy st =
    (if \<not> started2D st \<or> completed2D st then Inr st
     else
       let prev = playerPos st;
           newX = pos_x prev + dx;
           newY = pos_y prev + dy
       in if newX < 0 \<or> newX \<ge> int (length (MAZE_LAYOUT ! 0))
             \<or> newY < 0 \<or> newY \<ge> int (length MAZE_LAYOUT)
          then Inr st
          else (case cell_at MAZE_LAYOUT newY newX of
                  Inl e \<Rightarrow> Inl e
                | Inr v \<Rightarrow>
                    if v = Some 1 then Inr st
                    else
                      let newPos = \<lparr>pos_x = newX, pos_y = newY\<rparr>;
                          checkpoint = find (\<lambda>cp. pos_x cp = newX \<and> pos_y cp = newY)
                                         CHECKPOINT_POSITIONS;
                          st1 = (if checkpoint \<noteq> None
                                    \<and> \<not> list_ex (\<lambda>c. pos_x c = newX \<and> pos_y c = newY)
                                           (checkpoints2D st)
                                 then st\<lparr>checkpoints2D := checkpoints2D st @ [newPos]\<rparr>
                                 else st);
                          st2 = (if v = Some 2 then st1\<lparr>completed2D := True\<rparr> else st1)
                      in Inr (st2\<lparr>playerPos := newPos\<rparr>)))"

section \<open>The scene-graph variants (\<open>SimpleMazeGame\<close>, \<open>MazeGame\<close>)\<close>

definition MAZE_SIZE_3D :: int where
  "MAZE_SIZE_3D = 9"

definition MAZE_LAYOUT_3D :: grid where
  "MAZE_LAYOUT_3D =
    [[1,1,1,1,1,1,1,1,1],
     [1,0,0,0,1,0,0,0,1],
     [1,0,1,0,1,0,1,0,1],
     [1,0,1,0,0,0,1,0,1],
     [1,0,1,1,1,1,1,0,1],
     [1,0,0,0,0,0,0,0,1],
     [1,0,1,0,1,0,1,1,1],
     [1,0,0,0,1,0,0,2,1],
     [1,1,1,1,1,1,1,1,1]]"

record Vector3 =
  vec_x :: real
  vec_y :: real
  vec_z :: real

record Controller =
  moveForward :: bool
  moveBackward :: bool
  moveLeft :: bool
  moveRight :: bool

record Scene =
  camera_position :: Vector3
  velocity :: Vector3
  controls :: bool
  sceneCompleted :: bool
  playerPosition :: Vector3

text \<open>
  \<open>checkCollision\<close>: the position is shifted by half the maze size and rounded to a cell.
  \<open>maze[z] && maze[z][x] === 1\<close> is falsy when the row or the cell is \<open>undefined\<close>.
\<close>

definition checkCollision :: "grid \<Rightarrow> Vector3 \<Rightarrow> bool" where
  "checkCollision maze position =
    (let x = js_round (vec_x position + real_of_int MAZE_SIZE_3D / 2);
         z = js_round (vec_z position + real_of_int MAZE_SIZE_3D / 2)
     in if x < 0 \<or> x \<ge> MAZE_SIZE_3D \<or> z < 0 \<or> z \<ge> MAZE_SIZE_3D then True
        else (case elem_at maze z of None \<Rightarrow> False | Some r \<Rightarrow> elem_at r x = Some 1))"

text \<open>
  \<open>Vector3.normalize\<close> of three.js divides by the length, or by \<open>1\<close> when the length
  is \<open>0\<close>.  The direction has no vertical part.
\<close>

definition normalize_xz :: "real \<Rightarrow> real \<Rightarrow> real \<times> real" where
  "normalize_xz dx dz =
    (let len = sqrt (dx * dx + dz * dz);
         l = (if len = 0 then 1 else len)
     in (dx / l, dz / l))"

text \<open>
  The damped and accelerated velocity of a frame, computed before the collision test.
\<close>

definition frame_velocity :: "Controller \<Rightarrow> real \<Rightarrow> Vector3 \<Rightarrow> Vector3" where
  "frame_velocity c delta v =
    (let v1 = v\<lparr>vec_x := vec_x v - vec_x v * 10.0 * delta\<rparr>;
         v2 = v1\<lparr>vec_z := vec_z v1 - vec_z v1 * 10.0 * delta\<rparr>;
         (dx, dz) = normalize_xz
                      (of_bool (moveRight c) - of_bool (moveLeft c))
                      (of_bool (moveForward c) - of_bool (moveBackward c));
         v3 = (if moveForward c \<or> moveBackward c
               then v2\<lparr>vec_z := vec_z v2 - dz * 400.0 * delta\<rparr> else v2);
         v4 = (if moveLeft c \<or> moveRight c
               then v3\<lparr>vec_x := vec_x v3 - dx * 400.0 * delta\<rparr> else v3)
     in v4)"

definition tentative :: "Vector3 \<Rightarrow> Vector3 \<Rightarrow> real \<Rightarrow> Vector3" where
  "tentative pos v delta =
     pos\<lparr>vec_x := vec_x pos + vec_x v * delta, vec_z := vec_z pos + vec_z v * delta\<rparr>"

text \<open>
  The frame callback of \<open>PlayerController\<close>, for a maze, a goal point and whether the
  parent is told the position (\<open>onPositionChange\<close>, in \<open>MazeGame\<close> only).
  \<open>onGoalReached\<close> sets the parent's completed flag.
\<close>

definition useFrame :: "grid \<Rightarrow> real \<Rightarrow> real \<Rightarrow> bool \<Rightarrow> Controller \<Rightarrow> real \<Rightarrow> Scene \<Rightarrow> Scene" where
  "useFrame maze goalX goalZ report c delta st =
    (if \<not> controls st then st
     else
       let v = frame_velocity c delta (velocity st);
           st1 = st\<lparr>velocity := v\<rparr>;
           newPosition = tentative (camera_position st1) v delta
       in if \<not> checkCollision maze newPosition
          then
            let st2 = st1\<lparr>camera_position := newPosition\<rparr>;
                st3 = (if report then st2\<lparr>playerPosition := newPosition\<rparr> else st2);
                distance = sqrt ((vec_x newPosition - goalX)\<^sup>2 + (vec_z newPosition - goalZ)\<^sup>2)
            in if distance < 1 then st3\<lparr>sceneCompleted := True\<rparr> else st3
          else st1)"

text \<open>The callback of \<open>SimpleMazeGame\<close>: the fixed layout, goal point \<open>3.5 - MAZE_SIZE/2\<close>.\<close>

definition useFrame_simple :: "Controller \<Rightarrow> real \<Rightarrow> Scene \<Rightarrow> Scene" where
  "useFrame_simple =
     useFrame MAZE_LAYOUT_3D (3.5 - real_of_int MAZE_SIZE_3D / 2)
       (3.5 - real_of_int MAZE_SIZE_3D / 2) False"

text \<open>The callback of \<open>MazeGame\<close>: the generated maze, goal point \<open>MAZE_SIZE/2 - 2\<close>.\<close>

definition useFrame_generated :: "grid \<Rightarrow> Controller \<Rightarrow> real \<Rightarrow> Scene \<Rightarrow> Scene" where
  "useFrame_generated maze =
     useFrame maze (real_of_int MAZE_SIZE_3D / 2 - 2) (real_of_int MAZE_SIZE_3D / 2 - 2) True"

text \<open>\<open>handleCheckpoint\<close> of \<open>MazeGame\<close>, the updater of the collected list.\<close>

definition handleCheckpoint :: "Vector3 \<Rightarrow> Vector3 list \<Rightarrow> Vector3 list" where
  "handleCheckpoint position prev = prev @ [position]"

section \<open>The maze generator of \<open>MazeGame\<close>\<close>

text \<open>
  \<open>maze[y][x] = v\<close>: a \<open>TypeError\<close> when the row is \<open>undefined\<close>.  A write beyond the
  end of an existing row would make JavaScript grow the row; the model has no sparse rows
  and stops with \<open>SparseWrite\<close> there.  The theorems below show that the generator
  never reaches that case.
\<close>

definition write_cell :: "grid \<Rightarrow> int \<Rightarrow> int \<Rightarrow> int \<Rightarrow> error + grid" where
  "write_cell m y x v =
    (case elem_at m y of
       None \<Rightarrow> Inl TypeError
     | Some r \<Rightarrow>
         if 0 \<le> x \<and> x < int (length r) then Inr (m[nat y := r[nat x := v]])
         else Inl SparseWrite)"

definition directions :: "(int \<times> int) list" where
  "directions = [(0, -2), (2, 0), (0, 2), (-2, 0)]"

text \<open>
  \<open>directions.sort(() => Math.random() - 0.5)\<close> leaves some rearrangement of the four
  directions.  The outcome of the \<open>n\<close>-th shuffle of a run is \<open>rnd n\<close>; the state of a
  run is the grid and the number of shuffles made so far.
\<close>

type_synonym shuffles = "nat \<Rightarrow> (int \<times> int) list"

definition shuffled :: "shuffles \<Rightarrow> bool" where
  "shuffled rnd \<longleftrightarrow> (\<forall>n. mset (rnd n) = mset directions)"

text \<open>
  \<open>carve\<close> and its loop over the shuffled directions.  The first argument bounds the
  depth of the recursion; \<open>None\<close> means that the bound was too small.  The call stack
  of the JavaScript engine is taken to be large enough.  \<open>dx / 2\<close> is
  exact for the four directions and written \<open>dx div 2\<close>; \<open>sz\<close> is the source's
  \<open>size\<close>.
\<close>

fun carve :: "nat \<Rightarrow> shuffles \<Rightarrow> int \<Rightarrow> int \<Rightarrow> int \<Rightarrow> grid \<times> nat \<Rightarrow> (error + grid \<times> nat) option"
and carve_dirs :: "nat \<Rightarrow> shuffles \<Rightarrow> int \<Rightarrow> int \<Rightarrow> int \<Rightarrow> (int \<times> int) list \<Rightarrow> grid \<times> nat
                     \<Rightarrow> (error + grid \<times> nat) option"
where
  "carve 0 rnd sz x y st = None"
| "carve (Suc fuel) rnd sz x y (m, n) =
     (case write_cell m y x 0 of
        Inl e \<Rightarrow> Some (Inl e)
      | Inr m1 \<Rightarrow> carve_dirs fuel rnd sz x y (rnd n) (m1, Suc n))"
| "carve_dirs fuel rnd sz x y [] st = Some (Inr st)"
| "carve_dirs fuel rnd sz x y ((dx, dy) # ds) (m, n) =
     (let nx = x + dx; ny = y + dy
      in if nx > 0 \<and> nx < sz - 1 \<and> ny > 0 \<and> ny < sz - 1
         then (case cell_at m ny nx of
                 Inl e \<Rightarrow> Some (Inl e)
               | Inr v \<Rightarrow>
                   if v = Some 1
                   then (case write_cell m (y + dy div 2) (x + dx div 2) 0 of
                           Inl e \<Rightarrow> Some (Inl e)
                         | Inr m1 \<Rightarrow>
                             (case carve fuel rnd sz nx ny (m1, n) of
                                None \<Rightarrow> None
                              | Some (Inl e) \<Rightarrow> Some (Inl e)
                              | Some (Inr st1) \<Rightarrow> carve_dirs fuel rnd sz x y ds st1))
                   else carve_dirs fuel rnd sz x y ds (m, n))
         else carve_dirs fuel rnd sz x y ds (m, n))"

text \<open>
  \<open>generateMaze(size)\<close>, with the depth bound and the shuffles as further arguments.
  The size is a natural number (\<open>Array(size)\<close> throws for any other number).
\<close>

definition generateMaze :: "nat \<Rightarrow> shuffles \<Rightarrow> nat \<Rightarrow> (error + grid) option" where
  "generateMaze fuel rnd sz =
    (let maze = replicate sz (replicate sz 1)
     in case carve fuel rnd (int sz) 1 1 (maze, 0) of
          None \<Rightarrow> None
        | Some (Inl e) \<Rightarrow> Some (Inl e)
        | Some (Inr (m1, n)) \<Rightarrow>
            (case write_cell m1 1 1 0 of
               Inl e \<Rightarrow> Some (Inl e)
             | Inr m2 \<Rightarrow>
                 (case write_cell m2 (int sz - 2) (int sz - 2) 0 of
                    Inl e \<Rightarrow> Some (Inl e)
                  | Inr m3 \<Rightarrow> Some (Inr m3))))"

text \<open>The maze of a \<open>MazeGame\<close>: \<open>useState(() => generateMaze(MAZE_SIZE))\<close>.\<close>

definition MazeGame_maze :: "nat \<Rightarrow> shuffles \<Rightarrow> (error + grid) option" where
  "MazeGame_maze fuel rnd = generateMaze fuel rnd (nat MAZE_SIZE_3D)"

section \<open>The ray march of the raycasting variant\<close>

text \<open>The test of the march: outside the grid or a wall cell.\<close>

definition ray_hit :: "int \<Rightarrow> int \<Rightarrow> error + bool" where
  "ray_hit mapX mapY =
    (if mapX < 0 \<or> mapX \<ge> MAZE_SIZE \<or> mapY < 0 \<or> mapY \<ge> MAZE_SIZE then Inr True
     else (case cell_at MAZE_LAYOUT mapY mapX of
             Inl e \<Rightarrow> Inl e
           | Inr v \<Rightarrow> Inr (v = Some 1)))"

text \<open>
  The \<open>while (!hit && distance < 20)\<close> loop; it returns the distance at which it stopped.
\<close>

function march :: "real \<Rightarrow> real \<Rightarrow> real \<Rightarrow> real \<Rightarrow> error + real" where
  "march px py rayAngle distance =
    (if distance < 20
     then (if ray_hit \<lfloor>px + cos rayAngle * distance\<rfloor> \<lfloor>py + sin rayAngle * distance\<rfloor> = Inr False
           then march px py rayAngle (distance + 0.02)
           else (case ray_hit \<lfloor>px + cos rayAngle * distance\<rfloor> \<lfloor>py + sin rayAngle * distance\<rfloor> of
                   Inl e \<Rightarrow> Inl e
                 | Inr h \<Rightarrow> Inr distance))
     else Inr distance)"
  by pat_completeness auto
termination
proof (relation "measure (\<lambda>(px, py, rayAngle, distance). nat \<lceil>(20 - distance) * 50\<rceil>)")
  show "wf (measure (\<lambda>(px, py, rayAngle, distance). nat \<lceil>(20 - distance) * 50\<rceil>))"
    by simp
next
  fix px py rayAngle distance :: real
  assume "distance < 20"
  then have "0 < \<lceil>(20 - distance) * 50\<rceil>"
    by simp
  moreover have "\<lceil>(20 - (distance + 0.02)) * 50\<rceil> = \<lceil>(20 - distance) * 50\<rceil> - 1"
  proof -
    have "(20 - (distance + 0.02)) * 50 = (20 - distance) * 50 - 1"
      by (simp add: algebra_simps)
    then show ?thesis
      by (simp only: ceiling_diff_one)
  qed
  ultimately show "((px, py, rayAngle, distance + 0.02), (px, py, rayAngle, distance))
      \<in> measure (\<lambda>(px, py, rayAngle, distance). nat \<lceil>(20 - distance) * 50\<rceil>)"
    by simp
qed

declare march.simps [simp del]

text \<open>
  What one screen column computes.  \<open>WALL_HEIGHT / correctedDistance\<close> is infinite in
  JavaScript when the corrected distance is \<open>0\<close>; the height is \<open>None\<close> then.
\<close>

record Column =
  hit_distance :: real
  correctedDistance :: real
  wallHeight :: "real option"
  wallColor :: "int \<times> int \<times> int"

definition cast_column :: "Player \<Rightarrow> nat \<Rightarrow> nat \<Rightarrow> nat \<Rightarrow> error + Column" where
  "cast_column p width height i =
    (let rayCount = real width / 2;
         rayAngle = angle p - pi / 6 + (real i / rayCount) * (pi / 3)
     in case march (player_x p) (player_y p) rayAngle 0 of
          Inl e \<Rightarrow> Inl e
        | Inr distance \<Rightarrow>
            let corrected = distance * cos (rayAngle - angle p);
                brightness = max 0.2 (1 - distance / 10)
            in Inr \<lparr>hit_distance = distance,
                    correctedDistance = corrected,
                    wallHeight = (if corrected = 0 then None
                                  else Some ((WALL_HEIGHT / corrected) * (real height / 4))),
                    wallColor = (\<lfloor>139 * brightness\<rfloor>, \<lfloor>115 * brightness\<rfloor>, \<lfloor>85 * brightness\<rfloor>)\<rparr>)"

text \<open>The loop \<open>for (let i = 0; i < rayCount; i++)\<close>, from column \<open>i\<close> on.\<close>

function cast_from :: "Player \<Rightarrow> nat \<Rightarrow> nat \<Rightarrow> nat \<Rightarrow> error + Column list" where
  "cast_from p width height i =
    (if real i < real width / 2
     then (case cast_column p width height i of
             Inl e \<Rightarrow> Inl e
           | Inr c \<Rightarrow>
               (case cast_from p width height (Suc i) of
                  Inl e \<Rightarrow> Inl e
                | Inr cs \<Rightarrow> Inr (c # cs)))
     else Inr [])"
  by pat_completeness auto
termination
  by (relation "measure (\<lambda>(p, width, height, i). width - i)") auto

declare cast_from.simps [simp del]

text \<open>
  The wall columns of \<open>render\<close>, which closes over the whole game state.  The background
  and the heads-up display are drawn apart from the columns and are not modelled.
\<close>

definition render :: "GameState \<Rightarrow> nat \<Rightarrow> nat \<Rightarrow> error + Column list" where
  "render gs width height = cast_from (player gs) width height 0"

section \<open>Vocabulary for the generated maze\<close>

text \<open>A square grid of side \<open>s\<close>.\<close>

definition wf_grid :: "int \<Rightarrow> grid \<Rightarrow> bool" where
  "wf_grid s m \<longleftrightarrow> int (length m) = s \<and> (\<forall>r\<in>set m. int (length r) = s)"

text \<open>The value of the cell in column \<open>fst p\<close> of row \<open>snd p\<close>; outside the grid it reads as a wall.\<close>

definition cell :: "grid \<Rightarrow> int \<times> int \<Rightarrow> int" where
  "cell m p = (case cell_at m (snd p) (fst p) of Inr (Some v) \<Rightarrow> v | _ \<Rightarrow> 1)"

text \<open>The cells strictly inside the outer border.\<close>

definition inside :: "int \<Rightarrow> int \<times> int \<Rightarrow> bool" where
  "inside s p \<longleftrightarrow> 0 < fst p \<and> fst p < s - 1 \<and> 0 < snd p \<and> snd p < s - 1"

definition adjacent :: "int \<times> int \<Rightarrow> int \<times> int \<Rightarrow> bool" where
  "adjacent p q \<longleftrightarrow> \<bar>fst p - fst q\<bar> + \<bar>snd p - snd q\<bar> = 1"

text \<open>
  \<open>reach m a b\<close>: \<open>b\<close> can be reached from \<open>a\<close> by steps between orthogonally adjacent
  cells, all of them (with \<open>a\<close> and \<open>b\<close>) non-wall cells of \<open>m\<close>.
\<close>

inductive reach :: "grid \<Rightarrow> int \<times> int \<Rightarrow> int \<times> int \<Rightarrow> bool" for m a where
  start: "cell m a \<noteq> 1 \<Longrightarrow> reach m a a"
| step: "reach m a b \<Longrightarrow> adjacent b c \<Longrightarrow> cell m c \<noteq> 1 \<Longrightarrow> reach m a c"

text \<open>The number of wall cells inside the border.\<close>

definition uncarved :: "int \<Rightarrow> grid \<Rightarrow> nat" where
  "uncarved s m = card {p. inside s p \<and> cell m p = 1}"

text \<open>
  The runs of \<open>carve\<close> and of its loop as relations between the state before and the
  state after, without the depth bound.
\<close>

inductive carves :: "shuffles \<Rightarrow> int \<Rightarrow> int \<Rightarrow> int \<Rightarrow> grid \<times> nat \<Rightarrow> grid \<times> nat \<Rightarrow> bool"
  and visits :: "shuffles \<Rightarrow> int \<Rightarrow> int \<Rightarrow> int \<Rightarrow> (int \<times> int) list \<Rightarrow> grid \<times> nat \<Rightarrow> grid \<times> nat \<Rightarrow> bool"
  for rnd :: shuffles and s :: int
where
  enter: "write_cell m y x 0 = Inr m1 \<Longrightarrow> visits rnd s x y (rnd n) (m1, Suc n) st'
            \<Longrightarrow> carves rnd s x y (m, n) st'"
| finish: "visits rnd s x y [] st st"
| skip: "\<not> (inside s (x + dx, y + dy) \<and> cell_at m (y + dy) (x + dx) = Inr (Some 1))
            \<Longrightarrow> visits rnd s x y ds (m, n) st'
            \<Longrightarrow> visits rnd s x y ((dx, dy) # ds) (m, n) st'"
| descend: "inside s (x + dx, y + dy) \<Longrightarrow> cell_at m (y + dy) (x + dx) = Inr (Some 1)
            \<Longrightarrow> write_cell m (y + dy div 2) (x + dx div 2) 0 = Inr m1
            \<Longrightarrow> carves rnd s (x + dx) (y + dy) (m1, n) st1
            \<Longrightarrow> visits rnd s x y ds st1 st'
            \<Longrightarrow> visits rnd s x y ((dx, dy) # ds) (m, n) st'"

text \<open>The cells of the outer border, and the number of goal cells.\<close>

definition border_cells :: "grid \<Rightarrow> int list" where
  "border_cells m =
     concat (map (\<lambda>y. concat (map (\<lambda>x. if y = 0 \<or> Suc y = length m \<or> x = 0 \<or> Suc x = length (m ! y)
                                         then [m ! y ! x] else [])
                                 [0..<length (m ! y)]))
                 [0..<length m])"

definition border_is_wall :: "grid \<Rightarrow> bool" where
  "border_is_wall m \<longleftrightarrow> list_all (\<lambda>v. v = 1) (border_cells m)"

definition goal_count :: "grid \<Rightarrow> nat" where
  "goal_count m = length (filter (\<lambda>v. v = 2) (concat m))"

text \<open>
  \<open>grows s m m'\<close>: \<open>m'\<close> is a square grid of side \<open>s\<close> that differs from \<open>m\<close> only
  in cells inside the border that have become floor.
\<close>

definition grows :: "int \<Rightarrow> grid \<Rightarrow> grid \<Rightarrow> bool" where
  "grows s m m' \<longleftrightarrow>
     wf_grid s m' \<and> (\<forall>p. cell m' p = cell m p \<or> (cell m' p = 0 \<and> inside s p))"

text \<open>\<open>closed s m p\<close>: no wall is left two steps away from \<open>p\<close> inside the border.\<close>

definition closed :: "int \<Rightarrow> grid \<Rightarrow> int \<times> int \<Rightarrow> bool" where
  "closed s m p \<longleftrightarrow>
     (\<forall>d\<in>set directions. inside s (fst p + fst d, snd p + snd d)
          \<longrightarrow> cell m (fst p + fst d, snd p + snd d) \<noteq> 1)"

text \<open>The shuffles that leave the order of the directions unchanged.\<close>

definition unshuffled :: shuffles where
  "unshuffled n = directions"

text \<open>The maze of a \<open>MazeGame\<close> under \<open>unshuffled\<close>.\<close>

definition generated_example :: grid where
  "generated_example =
    [[1,1,1,1,1,1,1,1,1],
     [1,0,0,0,0,0,0,0,1],
     [1,1,1,1,1,1,1,0,1],
     [1,0,1,0,0,0,1,0,1],
     [1,0,1,0,1,0,1,0,1],
     [1,0,1,0,1,0,1,0,1],
     [1,0,1,0,1,0,1,0,1],
     [1,0,0,0,1,0,0,0,1],
     [1,1,1,1,1,1,1,1,1]]"

section \<open>Example inputs\<close>

text \<open>A finished \<open>SimpleMazeGame\<close> with the camera at the spawn point, and the forward key.\<close>

definition completed_scene :: Scene where
  "completed_scene =
     \<lparr>camera_position = \<lparr>vec_x = - 3.5, vec_y = 1.6, vec_z = - 3.5\<rparr>,
      velocity = \<lparr>vec_x = 0, vec_y = 0, vec_z = 0\<rparr>,
      controls = True, sceneCompleted = True,
      playerPosition = \<lparr>vec_x = 0, vec_y = 0, vec_z = 0\<rparr>\<rparr>"

definition forward_only :: Controller where
  "forward_only = \<lparr>moveForward = True, moveBackward = False, moveLeft = False, moveRight = False\<rparr>"

text \<open>A scene whose camera stands in the middle of the goal cell \<open>(7, 7)\<close>, and no key.\<close>

definition scene_in_goal_cell :: Scene where
  "scene_in_goal_cell =
     \<lparr>camera_position = \<lparr>vec_x = 2.5, vec_y = 1.6, vec_z = 2.5\<rparr>,
      velocity = \<lparr>vec_x = 0, vec_y = 0, vec_z = 0\<rparr>,
      controls = True, sceneCompleted = False,
      playerPosition = \<lparr>vec_x = 0, vec_y = 0, vec_z = 0\<rparr>\<rparr>"

definition no_keys :: Controller where
  "no_keys = \<lparr>moveForward = False, moveBackward = False, moveLeft = False, moveRight = False\<rparr>"

text \<open>A scene whose camera stands just below the top wall.\<close>

definition scene_at_wall :: Scene where
  "scene_at_wall =
     \<lparr>camera_position = \<lparr>vec_x = - 3.5, vec_y = 1.6, vec_z = - 3.95\<rparr>,
      velocity = \<lparr>vec_x = 0, vec_y = 0, vec_z = 0\<rparr>,
      controls = True, sceneCompleted = False,
      playerPosition = \<lparr>vec_x = 0, vec_y = 0, vec_z = 0\<rparr>\<rparr>"

text \<open>Raycasting states: facing the wall cell \<open>(4, 1)\<close>, and facing the goal cell.\<close>

definition state_at_wall :: GameState where
  "state_at_wall =
     \<lparr>player = \<lparr>player_x = 3.97, player_y = 1.5, angle = 0\<rparr>, checkpoints = [],
      gameStarted = True, gameCompleted = False, startTime = 0, currentTime = 0\<rparr>"

definition state_at_goal :: GameState where
  "state_at_goal =
     \<lparr>player = \<lparr>player_x = 8.97, player_y = 9.5, angle = 0\<rparr>, checkpoints = [],
      gameStarted = True, gameCompleted = False, startTime = 0, currentTime = 0\<rparr>"

definition keys_forward_right :: Keys where
  "keys_forward_right =
     \<lparr>key_w = True, key_s = False, key_a = False, key_d = True,
      ArrowUp = False, ArrowDown = False, ArrowLeft = False, ArrowRight = False\<rparr>"

text \<open>Top-down states: at the spawn cell, and left of the goal cell.\<close>

definition maze2d_at_start :: Maze2D where
  "maze2d_at_start =
     \<lparr>playerPos = \<lparr>pos_x = 1, pos_y = 1\<rparr>, started2D = True, completed2D = False,
      startTime2D = 0, currentTime2D = 0, checkpoints2D = []\<rparr>"

definition maze2d_at_goal :: Maze2D where
  "maze2d_at_goal =
     \<lparr>playerPos = \<lparr>pos_x = 8, pos_y = 9\<rparr>, started2D = True, completed2D = False,
      startTime2D = 0, currentTime2D = 0, checkpoints2D = []\<rparr>"

section \<open>Facts about the fixed layout\<close>

lemma turn_step_sum:
  "turn_step k a = a + 0.032 * (of_bool (key_d k) - of_bool (key_a k)
                                + of_bool (ArrowRight k) - of_bool (ArrowLeft k))"
  by (simp add: turn_step_def TURN_SPEED_def Let_def)

lemma length_MAZE_LAYOUT: "length MAZE_LAYOUT = 11"
  by (simp add: MAZE_LAYOUT_def)

lemma row_MAZE_LAYOUT: "0 \<le> y \<Longrightarrow> y < 11 \<Longrightarrow> \<exists>r. elem_at MAZE_LAYOUT y = Some r"
  by (simp add: elem_at_def length_MAZE_LAYOUT)

lemma goal_scan:
  "list_all (\<lambda>y. list_all (\<lambda>x. MAZE_LAYOUT ! y ! x = 2 \<longrightarrow> x = 9 \<and> y = 9) [0..<11]) [0..<11]"
  by code_simp

lemma rows_scan: "list_all (\<lambda>y. length (MAZE_LAYOUT ! y) = 11) [0..<11]"
  by code_simp

lemma goal_cell_unique:
  assumes "0 \<le> x" "x < 11" "0 \<le> y" "y < 11" "cell_at MAZE_LAYOUT y x = Inr (Some 2)"
  shows "x = 9 \<and> y = 9"
proof -
  have ny: "nat y < 11" and nx: "nat x < 11"
    using assms by auto
  have len: "length (MAZE_LAYOUT ! nat y) = 11"
    using rows_scan ny by (simp add: list_all_iff)
  have "MAZE_LAYOUT ! nat y ! nat x = 2"
    using assms len by (simp add: cell_at_def elem_at_def length_MAZE_LAYOUT)
  moreover have "\<forall>j\<in>set [0..<11]. \<forall>i\<in>set [0..<11]. MAZE_LAYOUT ! j ! i = 2 \<longrightarrow> i = 9 \<and> j = 9"
    using goal_scan by (simp only: list_all_iff)
  moreover have "nat y \<in> set [0..<11]" "nat x \<in> set [0..<11]"
    using ny nx by simp_all
  ultimately have "nat x = 9 \<and> nat y = 9"
    by blast
  then show ?thesis
    using assms by auto
qed

lemma no_checkpoint_at_goal:
  assumes "\<lfloor>newX\<rfloor> = 9" "\<lfloor>newY\<rfloor> = 9"
  shows "find (\<lambda>cp. near_checkpoint newX newY cp \<and> \<not> collected cs cp) CHECKPOINTS = None"
proof -
  have "9 \<le> newX"
    using assms(1) by linarith
  then show ?thesis
    by (simp add: CHECKPOINTS_def near_checkpoint_def)
qed

lemma cell_wall_4_1: "cell_at MAZE_LAYOUT 1 4 = Inr (Some 1)"
  by (simp add: cell_at_def elem_at_def MAZE_LAYOUT_def)

lemma cell_wall_0_1: "cell_at MAZE_LAYOUT 1 0 = Inr (Some 1)"
  by (simp add: cell_at_def elem_at_def MAZE_LAYOUT_def)

lemma cell_goal_9_9: "cell_at MAZE_LAYOUT 9 9 = Inr (Some 2)"
  by (simp add: cell_at_def elem_at_def MAZE_LAYOUT_def)

lemma move_step_forward_0: "move_step keys_forward_right 0 = (0.048, 0)"
  by (simp add: move_step_def keys_forward_right_def MOVE_SPEED_def)

section \<open>Rejected moves\<close>

text \<open>
  C1.  A tick whose tentative position lies in a wall cell or outside the grid changes
  nothing but the velocity: in the scene-graph variants the state after the frame is the
  state before it with the damped and accelerated velocity of this frame stored, so the
  camera position is exactly the old one and the velocity is kept for the next frame; in
  the top-down variant \<open>movePlayer\<close> returns the state it was given.  Both return a
  state, never an error.
\<close>

theorem rejected_move_is_noop:
  fixes st :: Scene and s2 :: Maze2D and prev :: GameState
  shows "(let v = frame_velocity c delta (velocity st);
              target = tentative (camera_position st) v delta;
              x = js_round (vec_x target + real_of_int MAZE_SIZE_3D / 2);
              z = js_round (vec_z target + real_of_int MAZE_SIZE_3D / 2)
          in controls st
               \<and> (x < 0 \<or> x \<ge> MAZE_SIZE_3D \<or> z < 0 \<or> z \<ge> MAZE_SIZE_3D
                    \<or> cell_at maze z x = Inr (Some 1))
             \<longrightarrow> useFrame maze goalX goalZ report c delta st = st\<lparr>velocity := v\<rparr>)
       \<and> (let newX = pos_x (playerPos s2) + dx; newY = pos_y (playerPos s2) + dy
          in newX < 0 \<or> newX \<ge> 11 \<or> newY < 0 \<or> newY \<ge> 11
               \<or> cell_at MAZE_LAYOUT newY newX = Inr (Some 1)
             \<longrightarrow> movePlayer dx dy s2 = Inr s2)"
proof -
  have l0: "length (MAZE_LAYOUT ! 0) = 11"
    by (simp add: MAZE_LAYOUT_def)
  have A: "useFrame maze goalX goalZ report c delta st = st\<lparr>velocity := frame_velocity c delta (velocity st)\<rparr>"
    if "controls st"
      "checkCollision maze (tentative (camera_position st) (frame_velocity c delta (velocity st)) delta)"
    using that by (simp add: useFrame_def Let_def)
  have B: "checkCollision maze p"
    if "js_round (vec_x p + real_of_int MAZE_SIZE_3D / 2) < 0
        \<or> js_round (vec_x p + real_of_int MAZE_SIZE_3D / 2) \<ge> MAZE_SIZE_3D
        \<or> js_round (vec_z p + real_of_int MAZE_SIZE_3D / 2) < 0
        \<or> js_round (vec_z p + real_of_int MAZE_SIZE_3D / 2) \<ge> MAZE_SIZE_3D
        \<or> cell_at maze (js_round (vec_z p + real_of_int MAZE_SIZE_3D / 2))
             (js_round (vec_x p + real_of_int MAZE_SIZE_3D / 2)) = Inr (Some 1)" for p
    using that by (auto simp add: checkCollision_def Let_def cell_at_def split: option.splits)
  show ?thesis
    unfolding Let_def
  proof (intro conjI impI)
    show "movePlayer dx dy s2 = Inr s2"
      if "pos_x (playerPos s2) + dx < 0 \<or> 11 \<le> pos_x (playerPos s2) + dx \<or>
          pos_y (playerPos s2) + dy < 0 \<or> 11 \<le> pos_y (playerPos s2) + dy \<or>
          cell_at MAZE_LAYOUT (pos_y (playerPos s2) + dy) (pos_x (playerPos s2) + dx) = Inr (Some 1)"
      using that by (auto simp add: movePlayer_def Let_def l0 length_MAZE_LAYOUT)
  qed (use A B in blast)
qed

theorem rejected_move_is_noop_witness:
  "useFrame MAZE_LAYOUT_3D (- 1) (- 1) False forward_only 0.016 scene_at_wall
     = scene_at_wall\<lparr>velocity := \<lparr>vec_x = 0, vec_y = 0, vec_z = - 6.4\<rparr>\<rparr>
   \<and> movePlayer (- 1) 0 maze2d_at_start = Inr maze2d_at_start"
proof -
  let ?v = "frame_velocity forward_only 0.016 (velocity scene_at_wall)"
  let ?t = "tentative (camera_position scene_at_wall) ?v 0.016"
  have v: "?v = \<lparr>vec_x = 0, vec_y = 0, vec_z = - 6.4\<rparr>"
    by (simp add: frame_velocity_def forward_only_def scene_at_wall_def normalize_xz_def)
  have z: "js_round (vec_z ?t + real_of_int MAZE_SIZE_3D / 2) = 0"
    by (simp add: frame_velocity_def forward_only_def scene_at_wall_def normalize_xz_def
        tentative_def js_round_def MAZE_SIZE_3D_def)
  have x: "js_round (vec_x ?t + real_of_int MAZE_SIZE_3D / 2) = 1"
    by (simp add: frame_velocity_def forward_only_def scene_at_wall_def normalize_xz_def
        tentative_def js_round_def MAZE_SIZE_3D_def)
  have w: "cell_at MAZE_LAYOUT_3D 0 1 = Inr (Some 1)"
    by (simp add: cell_at_def elem_at_def MAZE_LAYOUT_3D_def)
  have c: "controls scene_at_wall"
    by (simp add: scene_at_wall_def)
  have p: "pos_x (playerPos maze2d_at_start) + - 1 = 0" "pos_y (playerPos maze2d_at_start) + 0 = 1"
    by (simp_all add: maze2d_at_start_def)
  note T = rejected_move_is_noop [of forward_only "0.016" scene_at_wall MAZE_LAYOUT_3D
      "- 1" "- 1" False maze2d_at_start "- 1" 0, unfolded Let_def z x p]
  have A: "useFrame MAZE_LAYOUT_3D (- 1) (- 1) False forward_only 0.016 scene_at_wall
             = scene_at_wall\<lparr>velocity := ?v\<rparr>"
    using T c w by blast
  have B: "movePlayer (- 1) 0 maze2d_at_start = Inr maze2d_at_start"
    using T cell_wall_0_1 by blast
  show ?thesis
    using A B unfolding v by (rule conjI)
qed

text \<open>
  C10.  In the raycasting variant a rejected move discards the position change only: the
  state after the tick has the old coordinates and the angle turned by every held turn
  key (\<open>a\<close> and \<open>ArrowLeft\<close> subtract, \<open>d\<close> and \<open>ArrowRight\<close> add \<open>TURN_SPEED * 0.016\<close>).
\<close>

theorem gameLoop_rejected_still_turns:
  fixes prev :: GameState and k :: Keys
  defines "newX \<equiv> player_x (player prev) + fst (move_step k (angle (player prev)))"
      and "newY \<equiv> player_y (player prev) + snd (move_step k (angle (player prev)))"
  assumes run: "gameStarted prev" "\<not> gameCompleted prev" "canvas"
      and rejected: "\<lfloor>newX\<rfloor> < 0 \<or> \<lfloor>newX\<rfloor> \<ge> MAZE_SIZE \<or> \<lfloor>newY\<rfloor> < 0 \<or> \<lfloor>newY\<rfloor> \<ge> MAZE_SIZE
                       \<or> cell_at MAZE_LAYOUT \<lfloor>newY\<rfloor> \<lfloor>newX\<rfloor> = Inr (Some 1)"
  shows "\<exists>s. gameLoop canvas k prev = Inr s
           \<and> player_x (player s) = player_x (player prev)
           \<and> player_y (player s) = player_y (player prev)
           \<and> angle (player s) = angle (player prev)
                + 0.032 * (of_bool (key_d k) - of_bool (key_a k)
                           + of_bool (ArrowRight k) - of_bool (ArrowLeft k))
           \<and> checkpoints s = checkpoints prev \<and> gameCompleted s = gameCompleted prev"
  using run rejected unfolding newX_def newY_def
  by (auto simp add: gameLoop_def Let_def turn_step_sum case_prod_beta split: sum.splits)

theorem gameLoop_rejected_still_turns_witness:
  "\<exists>s. gameLoop True keys_forward_right state_at_wall = Inr s
       \<and> player_x (player s) = 3.97 \<and> player_y (player s) = 1.5
       \<and> angle (player s) = 0.032"
proof -
  have f: "\<lfloor>player_x (player state_at_wall) + 0.048\<rfloor> = 4" "\<lfloor>player_y (player state_at_wall)\<rfloor> = 1"
    by (simp_all add: state_at_wall_def)
  have a: "angle (player state_at_wall) = 0" "gameStarted state_at_wall"
    "\<not> gameCompleted state_at_wall" "player_x (player state_at_wall) = 3.97"
    "player_y (player state_at_wall) = 1.5"
    by (simp_all add: state_at_wall_def)
  have k: "key_d keys_forward_right" "\<not> key_a keys_forward_right"
    "\<not> ArrowRight keys_forward_right" "\<not> ArrowLeft keys_forward_right"
    by (simp_all add: keys_forward_right_def)
  have "\<exists>s. gameLoop True keys_forward_right state_at_wall = Inr s
       \<and> player_x (player s) = 3.97 \<and> player_y (player s) = 1.5
       \<and> angle (player s) = 0.032
       \<and> checkpoints s = checkpoints state_at_wall
       \<and> gameCompleted s = gameCompleted state_at_wall"
    using gameLoop_rejected_still_turns [of state_at_wall True keys_forward_right]
    by (simp add: a k f move_step_forward_0 cell_wall_4_1)
  then show ?thesis
    by blast
qed

section \<open>Out-of-bounds lookups\<close>

text \<open>
  C6.  Coordinates outside the grid count as blocked and nothing fails: \<open>checkCollision\<close>
  answers true when the rounded cell lies outside \<open>[0, MAZE_SIZE)\<close> in either direction,
  for every maze, and the hit test of the ray march answers true for every such cell.
  Both give the same answer for a wall cell.
\<close>

theorem out_of_bounds_is_blocked:
  "(let x = js_round (vec_x position + real_of_int MAZE_SIZE_3D / 2);
        z = js_round (vec_z position + real_of_int MAZE_SIZE_3D / 2)
    in (x < 0 \<or> x \<ge> MAZE_SIZE_3D \<or> z < 0 \<or> z \<ge> MAZE_SIZE_3D \<longrightarrow> checkCollision maze position)
       \<and> (cell_at maze z x = Inr (Some 1) \<longrightarrow> checkCollision maze position))
   \<and> (mapX < 0 \<or> mapX \<ge> MAZE_SIZE \<or> mapY < 0 \<or> mapY \<ge> MAZE_SIZE
       \<longrightarrow> ray_hit mapX mapY = Inr True)
   \<and> (cell_at MAZE_LAYOUT mapY mapX = Inr (Some 1) \<longrightarrow> ray_hit mapX mapY = Inr True)"
  by (auto simp add: checkCollision_def ray_hit_def Let_def cell_at_def split: option.splits)

theorem out_of_bounds_is_blocked_witness:
  "checkCollision MAZE_LAYOUT_3D \<lparr>vec_x = - 6, vec_y = 1.6, vec_z = 0\<rparr>
   \<and> checkCollision MAZE_LAYOUT_3D \<lparr>vec_x = - 4.5, vec_y = 1.6, vec_z = - 4.5\<rparr>
   \<and> ray_hit (- 1) 3 = Inr True \<and> ray_hit 4 1 = Inr True"
proof -
  have a: "js_round (vec_x \<lparr>vec_x = - 6, vec_y = 1.6, vec_z = 0\<rparr> + real_of_int MAZE_SIZE_3D / 2) < 0"
    by (simp add: js_round_def MAZE_SIZE_3D_def)
  have b: "js_round (vec_x \<lparr>vec_x = - 4.5, vec_y = 1.6, vec_z = - 4.5\<rparr> + real_of_int MAZE_SIZE_3D / 2) = 0"
    "js_round (vec_z \<lparr>vec_x = - 4.5, vec_y = 1.6, vec_z = - 4.5\<rparr> + real_of_int MAZE_SIZE_3D / 2) = 0"
    by (simp_all add: js_round_def MAZE_SIZE_3D_def)
  have c: "cell_at MAZE_LAYOUT_3D 0 0 = Inr (Some 1)"
    by (simp add: cell_at_def elem_at_def MAZE_LAYOUT_3D_def)
  have "checkCollision MAZE_LAYOUT_3D \<lparr>vec_x = - 6, vec_y = 1.6, vec_z = 0\<rparr> \<and> ray_hit (- 1) 3 = Inr True"
    using a out_of_bounds_is_blocked
      [of "\<lparr>vec_x = - 6, vec_y = 1.6, vec_z = 0\<rparr>" MAZE_LAYOUT_3D "- 1" 3]
    by (simp add: Let_def)
  moreover have "checkCollision MAZE_LAYOUT_3D \<lparr>vec_x = - 4.5, vec_y = 1.6, vec_z = - 4.5\<rparr>
      \<and> ray_hit 4 1 = Inr True"
    using out_of_bounds_is_blocked
      [of "\<lparr>vec_x = - 4.5, vec_y = 1.6, vec_z = - 4.5\<rparr>" MAZE_LAYOUT_3D 4 1,
       unfolded Let_def b] c cell_wall_4_1
    by blast
  ultimately show ?thesis
    by blast
qed

section \<open>Reaching the goal cell\<close>

text \<open>
  In the raycasting variant and in the top-down variant an accepted move whose
  destination cell holds the goal value sets the completed flag in the same tick.  In the
  raycasting variant the checkpoint branch returns before the goal test, but no
  checkpoint of \<open>CHECKPOINTS\<close> lies within pick-up range of the goal cell \<open>(9, 9)\<close>.
\<close>

lemma goal_cell_completes:
  fixes prev :: GameState and k :: Keys and st :: Maze2D
  defines "newX \<equiv> player_x (player prev) + fst (move_step k (angle (player prev)))"
      and "newY \<equiv> player_y (player prev) + snd (move_step k (angle (player prev)))"
  shows "(gameStarted prev \<and> \<not> gameCompleted prev \<and> canvas
            \<and> 0 \<le> \<lfloor>newX\<rfloor> \<and> \<lfloor>newX\<rfloor> < MAZE_SIZE \<and> 0 \<le> \<lfloor>newY\<rfloor> \<and> \<lfloor>newY\<rfloor> < MAZE_SIZE
            \<and> cell_at MAZE_LAYOUT \<lfloor>newY\<rfloor> \<lfloor>newX\<rfloor> = Inr (Some 2)
          \<longrightarrow> (\<exists>s. gameLoop canvas k prev = Inr s \<and> gameCompleted s
                   \<and> player_x (player s) = newX \<and> player_y (player s) = newY))
       \<and> (started2D st \<and> \<not> completed2D st
            \<and> 0 \<le> pos_x (playerPos st) + dx \<and> pos_x (playerPos st) + dx < 11
            \<and> 0 \<le> pos_y (playerPos st) + dy \<and> pos_y (playerPos st) + dy < 11
            \<and> cell_at MAZE_LAYOUT (pos_y (playerPos st) + dy) (pos_x (playerPos st) + dx) = Inr (Some 2)
          \<longrightarrow> (\<exists>s. movePlayer dx dy st = Inr s \<and> completed2D s
                   \<and> playerPos s = \<lparr>pos_x = pos_x (playerPos st) + dx, pos_y = pos_y (playerPos st) + dy\<rparr>))"
proof (intro conjI impI)
  assume a: "gameStarted prev \<and> \<not> gameCompleted prev \<and> canvas
            \<and> 0 \<le> \<lfloor>newX\<rfloor> \<and> \<lfloor>newX\<rfloor> < MAZE_SIZE \<and> 0 \<le> \<lfloor>newY\<rfloor> \<and> \<lfloor>newY\<rfloor> < MAZE_SIZE
            \<and> cell_at MAZE_LAYOUT \<lfloor>newY\<rfloor> \<lfloor>newX\<rfloor> = Inr (Some 2)"
  then have "\<lfloor>newX\<rfloor> = 9 \<and> \<lfloor>newY\<rfloor> = 9"
    using goal_cell_unique [of "\<lfloor>newX\<rfloor>" "\<lfloor>newY\<rfloor>"] by (simp add: MAZE_SIZE_def)
  then have nf: "find (\<lambda>cp. near_checkpoint newX newY cp \<and> \<not> collected (checkpoints prev) cp) CHECKPOINTS = None"
    using no_checkpoint_at_goal by blast
  show "\<exists>s. gameLoop canvas k prev = Inr s \<and> gameCompleted s
                   \<and> player_x (player s) = newX \<and> player_y (player s) = newY"
    using a nf unfolding newX_def newY_def
    by (simp add: gameLoop_def Let_def case_prod_beta)
next
  assume a: "started2D st \<and> \<not> completed2D st
            \<and> 0 \<le> pos_x (playerPos st) + dx \<and> pos_x (playerPos st) + dx < 11
            \<and> 0 \<le> pos_y (playerPos st) + dy \<and> pos_y (playerPos st) + dy < 11
            \<and> cell_at MAZE_LAYOUT (pos_y (playerPos st) + dy) (pos_x (playerPos st) + dx) = Inr (Some 2)"
  have l0: "length (MAZE_LAYOUT ! 0) = 11"
    by (simp add: MAZE_LAYOUT_def)
  show "\<exists>s. movePlayer dx dy st = Inr s \<and> completed2D s
                   \<and> playerPos s = \<lparr>pos_x = pos_x (playerPos st) + dx, pos_y = pos_y (playerPos st) + dy\<rparr>"
    using a by (simp add: movePlayer_def Let_def l0 length_MAZE_LAYOUT)
qed

lemma goal_cell_completes_example:
  "(\<exists>s. gameLoop True keys_forward_right state_at_goal = Inr s \<and> gameCompleted s
        \<and> player_x (player s) = 9.018 \<and> player_y (player s) = 9.5)
   \<and> (\<exists>s. movePlayer 1 0 maze2d_at_goal = Inr s \<and> completed2D s
        \<and> playerPos s = \<lparr>pos_x = 9, pos_y = 9\<rparr>)"
proof -
  have a: "angle (player state_at_goal) = 0" "gameStarted state_at_goal"
    "\<not> gameCompleted state_at_goal" "player_x (player state_at_goal) = 8.97"
    "player_y (player state_at_goal) = 9.5"
    by (simp_all add: state_at_goal_def)
  have f: "\<lfloor>8.97 + 0.048 :: real\<rfloor> = 9" "\<lfloor>9.5 :: real\<rfloor> = 9"
    by simp_all
  have b: "started2D maze2d_at_goal" "\<not> completed2D maze2d_at_goal"
    "playerPos maze2d_at_goal = \<lparr>pos_x = 8, pos_y = 9\<rparr>"
    by (simp_all add: maze2d_at_goal_def)
  show ?thesis
    using goal_cell_completes [of state_at_goal True keys_forward_right maze2d_at_goal 1 0] f
    by (simp add: a b move_step_forward_0 cell_goal_9_9 MAZE_SIZE_def)
qed

text \<open>
  The scene-graph variants do not look at the kind of the cell: they test the distance
  of the camera to a fixed goal point.  In \<open>MazeGame\<close> the point \<open>MAZE_SIZE/2 - 2\<close> is
  the middle of cell \<open>(7, 7)\<close>, where the goal marker stands, and every accepted frame
  into that cell completes the game.  In \<open>SimpleMazeGame\<close> the point
  \<open>3.5 - MAZE_SIZE/2\<close> is \<open>(-1, -1)\<close>, a corner of the wall cell \<open>(4, 4)\<close>, while the
  goal cell \<open>(7, 7)\<close> of its layout lies around \<open>(2.5, 2.5)\<close>: no frame into the goal
  cell changes the completed flag.
\<close>

lemma goal_cell_bounds:
  assumes "js_round (v + real_of_int MAZE_SIZE_3D / 2) = 7"
  shows "2 \<le> v" "v < 3"
proof -
  have "\<lfloor>v + 5\<rfloor> = 7"
    using assms by (simp add: js_round_def MAZE_SIZE_3D_def)
  then show "2 \<le> v" "v < 3"
    by linarith+
qed

lemma useFrame_simple_goal_cell_never_completes:
  fixes st :: Scene and c :: Controller and delta :: real
  defines "p \<equiv> tentative (camera_position st) (frame_velocity c delta (velocity st)) delta"
  assumes "js_round (vec_x p + real_of_int MAZE_SIZE_3D / 2) = 7"
      and "js_round (vec_z p + real_of_int MAZE_SIZE_3D / 2) = 7"
  shows "sceneCompleted (useFrame_simple c delta st) = sceneCompleted st"
proof -
  have "3 \<le> vec_x p + 1"
    using goal_cell_bounds(1) [OF assms(2)] by simp
  then have "9 \<le> (vec_x p + 1)\<^sup>2"
    using power_mono [of 3 "vec_x p + 1" 2] by simp
  moreover have "0 \<le> (vec_z p + 1)\<^sup>2"
    by simp
  ultimately have "\<not> (vec_x p + 1)\<^sup>2 + (vec_z p + 1)\<^sup>2 < 1"
    by linarith
  then have "\<not> sqrt ((vec_x p - (3.5 - real_of_int MAZE_SIZE_3D / 2))\<^sup>2
                 + (vec_z p - (3.5 - real_of_int MAZE_SIZE_3D / 2))\<^sup>2) < 1"
    by (simp add: MAZE_SIZE_3D_def)
  then show ?thesis
    unfolding p_def by (simp add: useFrame_simple_def useFrame_def Let_def)
qed

lemma useFrame_generated_goal_cell_completes:
  fixes st :: Scene and c :: Controller and delta :: real
  defines "p \<equiv> tentative (camera_position st) (frame_velocity c delta (velocity st)) delta"
  assumes "controls st" "\<not> checkCollision maze p"
      and "js_round (vec_x p + real_of_int MAZE_SIZE_3D / 2) = 7"
      and "js_round (vec_z p + real_of_int MAZE_SIZE_3D / 2) = 7"
  shows "sceneCompleted (useFrame_generated maze c delta st)"
proof -
  have "\<bar>vec_x p - 5 / 2\<bar> \<le> \<bar>1 / 2 :: real\<bar>" "\<bar>vec_z p - 5 / 2\<bar> \<le> \<bar>1 / 2 :: real\<bar>"
    using goal_cell_bounds [OF assms(4)] goal_cell_bounds [OF assms(5)] by linarith+
  then have "(vec_x p - 5 / 2)\<^sup>2 \<le> (1 / 2)\<^sup>2" "(vec_z p - 5 / 2)\<^sup>2 \<le> (1 / 2)\<^sup>2"
    by (simp_all only: abs_le_square_iff)
  then have "(vec_x p - 5 / 2)\<^sup>2 + (vec_z p - 5 / 2)\<^sup>2 < 1"
    by (simp add: power2_eq_square)
  then have "sqrt ((vec_x p - (real_of_int MAZE_SIZE_3D / 2 - 2))\<^sup>2
                 + (vec_z p - (real_of_int MAZE_SIZE_3D / 2 - 2))\<^sup>2) < 1"
    by (simp add: MAZE_SIZE_3D_def)
  then show ?thesis
    using assms(2,3) unfolding p_def
    by (simp add: useFrame_generated_def useFrame_def Let_def)
qed

lemma useFrame_generated_in_goal_cell:
  "sceneCompleted (useFrame_generated generated_example no_keys 0.016 scene_in_goal_cell)"
  by (simp add: scene_in_goal_cell_def no_keys_def useFrame_generated_def useFrame_def Let_def
      frame_velocity_def normalize_xz_def tentative_def checkCollision_def js_round_def
      MAZE_SIZE_3D_def generated_example_def elem_at_def)

text \<open>
  C7.  An accepted move into a cell of the goal kind should set the completed flag in the
  same tick.  The raycasting and the top-down variant do so (\<open>goal_cell_completes\<close>), and
  so does \<open>MazeGame\<close> at its goal cell.  \<open>SimpleMazeGame\<close> does not: with the camera in
  the middle of the goal cell \<open>(7, 7)\<close> of its layout the frame is accepted, the camera
  stays where it is and the game is still uncompleted.
\<close>

theorem goal_cell_leaves_game_uncompleted:
  "\<not> checkCollision MAZE_LAYOUT_3D (camera_position scene_in_goal_cell)
   \<and> cell_at MAZE_LAYOUT_3D 7 7 = Inr (Some 2)
   \<and> js_round (vec_x (camera_position scene_in_goal_cell) + real_of_int MAZE_SIZE_3D / 2) = 7
   \<and> js_round (vec_z (camera_position scene_in_goal_cell) + real_of_int MAZE_SIZE_3D / 2) = 7
   \<and> camera_position (useFrame_simple no_keys 0.016 scene_in_goal_cell)
        = \<lparr>vec_x = 2.5, vec_y = 1.6, vec_z = 2.5\<rparr>
   \<and> \<not> sceneCompleted (useFrame_simple no_keys 0.016 scene_in_goal_cell)"
  by (simp add: scene_in_goal_cell_def no_keys_def useFrame_simple_def useFrame_def Let_def
      frame_velocity_def normalize_xz_def tentative_def checkCollision_def js_round_def
      MAZE_SIZE_3D_def MAZE_LAYOUT_3D_def elem_at_def cell_at_def power2_eq_square)

section \<open>The render pass\<close>

lemma ray_hit_total: "\<exists>h. ray_hit mapX mapY = Inr h"
proof (cases "mapX < 0 \<or> mapX \<ge> MAZE_SIZE \<or> mapY < 0 \<or> mapY \<ge> MAZE_SIZE")
  case True
  then show ?thesis by (auto simp add: ray_hit_def)
next
  case False
  then obtain r where "elem_at MAZE_LAYOUT mapY = Some r"
    using row_MAZE_LAYOUT [of mapY] by (auto simp add: MAZE_SIZE_def)
  with False show ?thesis
    by (simp add: ray_hit_def cell_at_def)
qed

lemma march_total: "\<exists>d. march px py a d0 = Inr d"
proof (induction px py a d0 rule: march.induct)
  case (1 px py rayAngle distance)
  obtain h where h: "ray_hit \<lfloor>px + cos rayAngle * distance\<rfloor> \<lfloor>py + sin rayAngle * distance\<rfloor> = Inr h"
    using ray_hit_total by blast
  show ?case
  proof (cases "distance < 20 \<and> \<not> h")
    case True
    then show ?thesis
      using "1.IH" h by (subst march.simps) simp
  next
    case False
    then show ?thesis
      using h by (subst march.simps) auto
  qed
qed

lemma sum_case_total:
  "\<exists>d. r = Inr d \<Longrightarrow> \<exists>c. (case r of Inl e \<Rightarrow> Inl e | Inr d \<Rightarrow> Inr (f d)) = Inr c"
  by auto

lemma cast_column_total: "\<exists>c. cast_column p w h i = Inr c"
  unfolding cast_column_def Let_def
  by (rule sum_case_total) (rule march_total)

lemma cast_from_total: "\<exists>cs. cast_from p w h i = Inr cs"
proof (induction p w h i rule: cast_from.induct)
  case (1 p width height i)
  obtain c where c: "cast_column p width height i = Inr c"
    using cast_column_total by blast
  show ?case
  proof (cases "real i < real width / 2")
    case True
    then show ?thesis
      using "1.IH" c by (subst cast_from.simps) auto
  next
    case False
    then show ?thesis
      by (subst cast_from.simps) simp
  qed
qed

text \<open>The wall columns of a render pass are always computed: no lookup of the pass fails.\<close>

lemma render_total: "\<exists>cols. render gs width height = Inr cols"
  using cast_from_total [of "player gs" width height 0] by (simp add: render_def)

section \<open>After completion\<close>

lemma gameLoop_frozen: "gameCompleted prev \<Longrightarrow> gameLoop canvas k prev = Inr prev"
  by (simp add: gameLoop_def)

lemma movePlayer_frozen: "completed2D st \<Longrightarrow> movePlayer dx dy st = Inr st"
  by (simp add: movePlayer_def)

text \<open>
  C2.  The raycasting and the top-down variant stop at their completed flag (the two
  lemmas above).  The frame callback of the scene-graph variant has no such test: in a
  completed game, with the forward key held, one frame of 16 ms moves the camera from
  \<open>z = -3.5\<close> to \<open>z = -3.6024\<close>.
\<close>

theorem useFrame_moves_after_completion:
  "sceneCompleted completed_scene
   \<and> camera_position (useFrame_simple forward_only 0.016 completed_scene)
       = \<lparr>vec_x = - 3.5, vec_y = 1.6, vec_z = - 3.6024\<rparr>"
  by (simp add: completed_scene_def forward_only_def useFrame_simple_def useFrame_def Let_def
      frame_velocity_def normalize_xz_def tentative_def checkCollision_def js_round_def
      MAZE_SIZE_3D_def MAZE_LAYOUT_3D_def elem_at_def)

section \<open>Collecting checkpoints\<close>

lemma near_one_checkpoint:
  assumes "near_checkpoint u v cp" "near_checkpoint u v cq"
  shows "pos_x cq = pos_x cp \<and> pos_y cq = pos_y cp"
proof -
  have "\<bar>real_of_int (pos_x cq) - real_of_int (pos_x cp)\<bar> < 1"
    "\<bar>real_of_int (pos_y cq) - real_of_int (pos_y cp)\<bar> < 1"
    using assms unfolding near_checkpoint_def by linarith+
  then have "real_of_int \<bar>pos_x cq - pos_x cp\<bar> < 1" "real_of_int \<bar>pos_y cq - pos_y cp\<bar> < 1"
    by simp_all
  then have "\<bar>pos_x cq - pos_x cp\<bar> < 1" "\<bar>pos_y cq - pos_y cp\<bar> < 1"
    by linarith+
  then show ?thesis
    by simp
qed

lemma gameLoop_recollect:
  assumes "collected (checkpoints prev) cp"
      and "near_checkpoint (player_x (player prev) + fst (move_step k (angle (player prev))))
             (player_y (player prev) + snd (move_step k (angle (player prev)))) cp"
      and "gameLoop canvas k prev = Inr s"
  shows "checkpoints s = checkpoints prev"
proof -
  let ?u = "player_x (player prev) + fst (move_step k (angle (player prev)))"
  let ?v = "player_y (player prev) + snd (move_step k (angle (player prev)))"
  have "\<not> (near_checkpoint ?u ?v cq \<and> \<not> collected (checkpoints prev) cq)"
    if "cq \<in> set CHECKPOINTS" for cq
    using near_one_checkpoint [OF assms(2), of cq] assms(1) by (auto simp add: collected_def)
  then have "find (\<lambda>cq. near_checkpoint ?u ?v cq \<and> \<not> collected (checkpoints prev) cq) CHECKPOINTS = None"
    by (simp add: find_None_iff)
  then show ?thesis
    using assms(3)
    by (auto simp add: gameLoop_def Let_def case_prod_beta split: if_splits sum.splits)
qed

lemma movePlayer_recollect:
  assumes "list_ex (\<lambda>c. pos_x c = pos_x (playerPos st) + dx \<and> pos_y c = pos_y (playerPos st) + dy)
             (checkpoints2D st)"
      and "movePlayer dx dy st = Inr s"
  shows "checkpoints2D s = checkpoints2D st"
  using assms
  by (auto simp add: movePlayer_def Let_def split: if_splits sum.splits)

text \<open>
  C3.  The raycasting and the top-down variant test the collected list before they
  append.  \<open>handleCheckpoint\<close> of \<open>MazeGame\<close> appends without a test: collecting the
  checkpoint of cell \<open>(3, 3)\<close> a second time leaves two entries.
\<close>

theorem handleCheckpoint_duplicates:
  "handleCheckpoint \<lparr>vec_x = - 1.5, vec_y = 0, vec_z = - 1.5\<rparr> [\<lparr>vec_x = - 1.5, vec_y = 0, vec_z = - 1.5\<rparr>]
     = [\<lparr>vec_x = - 1.5, vec_y = 0, vec_z = - 1.5\<rparr>, \<lparr>vec_x = - 1.5, vec_y = 0, vec_z = - 1.5\<rparr>]"
  by (simp add: handleCheckpoint_def)

section \<open>Reading and writing cells\<close>

lemma cell_in_range:
  assumes "wf_grid s m" "0 \<le> x" "x < s" "0 \<le> y" "y < s"
  shows "cell_at m y x = Inr (Some (m ! nat y ! nat x))" "cell m (x, y) = m ! nat y ! nat x"
proof -
  have "nat y < length m"
    using assms by (auto simp add: wf_grid_def)
  then have "m ! nat y \<in> set m"
    by simp
  then have "int (length (m ! nat y)) = s"
    using assms(1) by (simp add: wf_grid_def)
  then show "cell_at m y x = Inr (Some (m ! nat y ! nat x))"
    using assms by (auto simp add: cell_at_def elem_at_def wf_grid_def)
  then show "cell m (x, y) = m ! nat y ! nat x"
    by (simp add: cell_def)
qed

lemma cell_out_of_range:
  assumes "wf_grid s m" "\<not> (0 \<le> x \<and> x < s \<and> 0 \<le> y \<and> y < s)"
  shows "cell m (x, y) = 1"
proof (cases "0 \<le> y \<and> y < s")
  case True
  then have "nat y < length m"
    using assms by (auto simp add: wf_grid_def)
  then have "m ! nat y \<in> set m"
    by simp
  then have "int (length (m ! nat y)) = s"
    using assms(1) by (simp add: wf_grid_def)
  then show ?thesis
    using assms True by (auto simp add: cell_def cell_at_def elem_at_def wf_grid_def)
next
  case False
  then show ?thesis
    using assms by (auto simp add: cell_def cell_at_def elem_at_def wf_grid_def)
qed

lemma cell_at_is_wall:
  assumes "wf_grid s m" "0 \<le> x" "x < s" "0 \<le> y" "y < s"
  shows "cell_at m y x = Inr (Some 1) \<longleftrightarrow> cell m (x, y) = 1"
  using cell_in_range [OF assms] by simp

lemma write_cell_in_range:
  assumes "wf_grid s m" "0 \<le> x" "x < s" "0 \<le> y" "y < s"
  shows "\<exists>m'. write_cell m y x v = Inr m' \<and> wf_grid s m'
           \<and> cell m' (x, y) = v \<and> (\<forall>p. p \<noteq> (x, y) \<longrightarrow> cell m' p = cell m p)"
proof -
  let ?r = "m ! nat y"
  let ?m' = "m[nat y := ?r[nat x := v]]"
  have ly: "nat y < length m"
    using assms by (auto simp add: wf_grid_def)
  then have "?r \<in> set m"
    by simp
  then have lr: "int (length ?r) = s"
    using assms(1) by (simp add: wf_grid_def)
  have w: "write_cell m y x v = Inr ?m'"
    using assms ly lr by (simp add: write_cell_def elem_at_def)
  have wf: "wf_grid s ?m'"
  proof -
    have "set ?m' \<subseteq> insert (?r[nat x := v]) (set m)"
      by (rule set_update_subset_insert)
    then show ?thesis
      using assms(1) lr by (auto simp add: wf_grid_def)
  qed
  have here: "cell ?m' (x, y) = v"
    using cell_in_range(2) [OF wf assms(2-5)] ly lr assms by simp
  have other: "cell ?m' (x', y') = cell m (x', y')" if "(x', y') \<noteq> (x, y)" for x' y'
  proof (cases "0 \<le> x' \<and> x' < s \<and> 0 \<le> y' \<and> y' < s")
    case True
    have "cell ?m' (x', y') = ?m' ! nat y' ! nat x'"
      using cell_in_range(2) [OF wf] True by simp
    also have "\<dots> = m ! nat y' ! nat x'"
    proof (cases "y' = y")
      case True
      then have "x' \<noteq> x"
        using that by simp
      then have "nat x' \<noteq> nat x"
        using \<open>0 \<le> x' \<and> x' < s \<and> 0 \<le> y' \<and> y' < s\<close> assms by auto
      then show ?thesis
        using True ly by simp
    next
      case False
      then have "nat y' \<noteq> nat y"
        using True assms by auto
      then show ?thesis
        by simp
    qed
    also have "\<dots> = cell m (x', y')"
      using cell_in_range(2) [OF assms(1)] True by simp
    finally show ?thesis .
  next
    case False
    then show ?thesis
      using cell_out_of_range [OF wf] cell_out_of_range [OF assms(1)] by simp
  qed
  show ?thesis
    using w wf here other by auto
qed

lemma inside_in_range: "inside s (x, y) \<Longrightarrow> 0 \<le> x \<and> x < s \<and> 0 \<le> y \<and> y < s"
  by (auto simp add: inside_def)

section \<open>Runs of the function are runs of the relation\<close>

lemma carve_runs:
  "carve f rnd s x y st = Some (Inr st') \<Longrightarrow> carves rnd s x y st st'"
  "carve_dirs f rnd s x y ds st = Some (Inr st') \<Longrightarrow> visits rnd s x y ds st st'"
proof (induction f rnd s x y st and f rnd s x y ds st arbitrary: st' and st'
    rule: carve_carve_dirs.induct)
  case (1 rnd sz x y st)
  then show ?case by simp
next
  case (2 fuel rnd sz x y m n)
  from "2.prems" obtain m1 where
    w: "write_cell m y x 0 = Inr m1" and
    r: "carve_dirs fuel rnd sz x y (rnd n) (m1, Suc n) = Some (Inr st')"
    by (auto split: sum.splits)
  have v: "visits rnd sz x y (rnd n) (m1, Suc n) st'"
    using "2.IH" [OF w r] .
  show ?case
    by (rule carves_visits.enter [OF w v])
next
  case (3 fuel rnd sz x y st)
  then show ?case
    by (auto intro: carves_visits.intros)
next
  case (4 fuel rnd sz x y dx dy ds m n)
  show ?case
  proof (cases "inside sz (x + dx, y + dy) \<and> cell_at m (y + dy) (x + dx) = Inr (Some 1)")
    case True
    then have g: "x + dx > 0 \<and> x + dx < sz - 1 \<and> y + dy > 0 \<and> y + dy < sz - 1"
      by (simp add: inside_def)
    from "4.prems" True g obtain m1 st1 where
      w: "write_cell m (y + dy div 2) (x + dx div 2) 0 = Inr m1" and
      c: "carve fuel rnd sz (x + dx) (y + dy) (m1, n) = Some (Inr st1)" and
      r: "carve_dirs fuel rnd sz x y ds st1 = Some (Inr st')"
      by (auto simp add: Let_def split: sum.splits option.splits)
    have "carves rnd sz (x + dx) (y + dy) (m1, n) st1"
      using "4.IH"(1) [OF refl refl _ _ _ w c] g True by simp
    moreover have "visits rnd sz x y ds st1 st'"
      using "4.IH"(2) [OF refl refl _ _ _ w c refl r] g True by simp
    ultimately show ?thesis
      using True w by (auto intro: carves_visits.descend)
  next
    case False
    then have r: "carve_dirs fuel rnd sz x y ds (m, n) = Some (Inr st')"
      using "4.prems" by (auto simp add: Let_def inside_def split: sum.splits if_splits)
    obtain a b where st': "st' = (a, b)"
      by (cases st')
    have "visits rnd sz x y ds (m, n) st'"
    proof (cases "x + dx > 0 \<and> x + dx < sz - 1 \<and> y + dy > 0 \<and> y + dy < sz - 1")
      case True
      then obtain v where v: "cell_at m (y + dy) (x + dx) = Inr v" "v \<noteq> Some 1"
        using "4.prems" False by (auto simp add: Let_def inside_def split: sum.splits if_splits)
      show ?thesis
        using "4.IH"(3) [OF refl refl True v r] .
    next
      case False
      show ?thesis
        using "4.IH"(4) [OF refl refl False r] .
    qed
    then show ?thesis
      using False by (auto intro: carves_visits.skip)
  qed
qed

section \<open>Carving only opens cells inside the border\<close>

lemma grows_refl: "wf_grid s m \<Longrightarrow> grows s m m"
  by (simp add: grows_def)

lemma grows_trans: "grows s m1 m2 \<Longrightarrow> grows s m2 m3 \<Longrightarrow> grows s m1 m3"
  unfolding grows_def by metis

lemma grows_wf: "grows s m m' \<Longrightarrow> wf_grid s m'"
  by (simp add: grows_def)

lemma grows_open: "grows s m m' \<Longrightarrow> cell m p \<noteq> 1 \<Longrightarrow> cell m' p \<noteq> 1"
  unfolding grows_def by (metis zero_neq_one)

lemma grows_floor: "grows s m m' \<Longrightarrow> cell m p = 0 \<Longrightarrow> cell m' p = 0"
  unfolding grows_def by metis

lemma grows_wall: "grows s m m' \<Longrightarrow> cell m' p = 1 \<Longrightarrow> cell m p = 1"
  unfolding grows_def by (metis zero_neq_one)

lemma write_inside:
  assumes "wf_grid s m" "inside s (x, y)"
  shows "\<exists>m'. write_cell m y x 0 = Inr m' \<and> grows s m m'
           \<and> cell m' (x, y) = 0 \<and> (\<forall>p. p \<noteq> (x, y) \<longrightarrow> cell m' p = cell m p)"
proof -
  have r: "0 \<le> x" "x < s" "0 \<le> y" "y < s"
    using inside_in_range [OF assms(2)] by simp_all
  obtain m' where m': "write_cell m y x 0 = Inr m'" "wf_grid s m'" "cell m' (x, y) = 0"
    "\<forall>p. p \<noteq> (x, y) \<longrightarrow> cell m' p = cell m p"
    using write_cell_in_range [OF assms(1) r, of 0] by blast
  then have "grows s m m'"
    using assms(2) unfolding grows_def by metis
  then show ?thesis
    using m' by blast
qed

lemma direction_cases:
  "(dx, dy) \<in> set directions \<Longrightarrow>
     (dx = 0 \<and> dy = - 2) \<or> (dx = 2 \<and> dy = 0) \<or> (dx = 0 \<and> dy = 2) \<or> (dx = - 2 \<and> dy = 0)"
  by (auto simp add: directions_def)

lemma connector_inside:
  assumes "(dx, dy) \<in> set directions" "inside s (x, y)" "inside s (x + dx, y + dy)"
  shows "inside s (x + dx div 2, y + dy div 2)"
  using direction_cases [OF assms(1)] assms(2,3) by (auto simp add: inside_def)

lemma connector_differs:
  assumes "(dx, dy) \<in> set directions"
  shows "(x + dx div 2, y + dy div 2) \<noteq> (x + dx, y + dy)"
    "(x + dx div 2, y + dy div 2) \<noteq> (x, y)"
  using direction_cases [OF assms] by auto

lemma shuffled_set: "shuffled rnd \<Longrightarrow> set (rnd n) = set directions"
  unfolding shuffled_def by (metis set_mset_mset)

lemma carves_grows:
  assumes "shuffled rnd"
  shows "carves rnd s x y st st' \<Longrightarrow> wf_grid s (fst st) \<Longrightarrow> inside s (x, y)
           \<Longrightarrow> grows s (fst st) (fst st') \<and> cell (fst st') (x, y) = 0"
    and "visits rnd s x y ds st st' \<Longrightarrow> wf_grid s (fst st) \<Longrightarrow> inside s (x, y)
           \<Longrightarrow> set ds \<subseteq> set directions \<Longrightarrow> grows s (fst st) (fst st')"
proof (induction rule: carves_visits.inducts)
  case (enter m y x m1 n st')
  obtain m' where m': "write_cell m y x 0 = Inr m'" "grows s m m'" "cell m' (x, y) = 0"
    using write_inside [of s m x y] enter.prems by auto
  then have eq: "m1 = m'"
    using enter.hyps by simp
  have "wf_grid s (fst (m1, Suc n))"
    using m' eq grows_wf by auto
  moreover have "set (rnd n) \<subseteq> set directions"
    using shuffled_set [OF \<open>shuffled rnd\<close>] by simp
  ultimately have g: "grows s m1 (fst st')"
    using enter.IH enter.prems by simp
  have "grows s m (fst st')"
    using m'(2) eq g grows_trans by blast
  moreover have "cell (fst st') (x, y) = 0"
    using g m'(3) eq grows_floor by blast
  ultimately show ?case
    by simp
next
  case (finish x y st)
  then show ?case
    by (simp add: grows_refl)
next
  case (skip x dx y dy m ds n st')
  then show ?case
    by simp
next
  case (descend x dx y dy m m1 n st1 ds st')
  have d: "(dx, dy) \<in> set directions"
    using descend.prems by simp
  have ci: "inside s (x + dx div 2, y + dy div 2)"
    using connector_inside [OF d, of s x y] descend.prems(2) \<open>inside s (x + dx, y + dy)\<close> by blast
  obtain m' where m': "write_cell m (y + dy div 2) (x + dx div 2) 0 = Inr m'" "grows s m m'"
    using write_inside [OF _ ci, of m] descend.prems by auto
  then have eq: "m1 = m'"
    using descend.hyps by simp
  have "wf_grid s (fst (m1, n))"
    using m' eq grows_wf by auto
  then have g1: "grows s m1 (fst st1)"
    using descend.IH \<open>inside s (x + dx, y + dy)\<close> by simp
  then have "wf_grid s (fst st1)"
    by (rule grows_wf)
  then have g2: "grows s (fst st1) (fst st')"
    using descend.IH descend.prems by simp
  have "grows s m (fst st')"
    using m'(2) eq g1 g2 grows_trans by blast
  then show ?case
    by simp
qed

section \<open>Termination of the carving\<close>

lemma finite_inside: "finite {p. inside s p}"
proof (rule finite_subset)
  show "{p. inside s p} \<subseteq> {0..<s} \<times> {0..<s}"
    by (auto simp add: inside_def)
  show "finite ({0..<s} \<times> {0..<s})"
    by simp
qed

lemma uncarved_bound: "uncarved s m \<le> nat s * nat s"
proof -
  have "{p. inside s p \<and> cell m p = 1} \<subseteq> {0..<s} \<times> {0..<s}"
    by (auto simp add: inside_def)
  then have "card {p. inside s p \<and> cell m p = 1} \<le> card ({0..<s} \<times> {0..<s})"
    by (intro card_mono) simp_all
  then show ?thesis
    by (simp add: uncarved_def card_cartesian_product)
qed

lemma uncarved_mono:
  assumes "grows s m m'"
  shows "uncarved s m' \<le> uncarved s m"
proof -
  have "{p. inside s p \<and> cell m' p = 1} \<subseteq> {p. inside s p \<and> cell m p = 1}"
    using grows_wall [OF assms] by auto
  moreover have "finite {p. inside s p \<and> cell m p = 1}"
    using finite_inside [of s] by simp
  ultimately show ?thesis
    unfolding uncarved_def by (rule card_mono [rotated])
qed

lemma uncarved_less:
  assumes "grows s m m'" "inside s p" "cell m p = 1" "cell m' p \<noteq> 1"
  shows "uncarved s m' < uncarved s m"
proof -
  have "{p. inside s p \<and> cell m' p = 1} \<subseteq> {p. inside s p \<and> cell m p = 1}"
    using grows_wall [OF assms(1)] by auto
  moreover have "p \<in> {p. inside s p \<and> cell m p = 1}" "p \<notin> {p. inside s p \<and> cell m' p = 1}"
    using assms by auto
  ultimately have "{p. inside s p \<and> cell m' p = 1} \<subset> {p. inside s p \<and> cell m p = 1}"
    by blast
  moreover have "finite {p. inside s p \<and> cell m p = 1}"
    using finite_inside [of s] by simp
  ultimately show ?thesis
    unfolding uncarved_def by (rule psubset_card_mono [rotated])
qed

lemma carve_dirs_skip:
  assumes "\<not> (inside s (x + dx, y + dy) \<and> cell m (x + dx, y + dy) = 1)" "wf_grid s m"
  shows "carve_dirs f rnd s x y ((dx, dy) # ds) (m, n) = carve_dirs f rnd s x y ds (m, n)"
proof (cases "inside s (x + dx, y + dy)")
  case True
  then have "cell_at m (y + dy) (x + dx) = Inr (Some (cell m (x + dx, y + dy)))"
    using cell_in_range [OF assms(2), of "x + dx" "y + dy"] inside_in_range [OF True] by simp
  then show ?thesis
    using assms(1) True by (simp add: Let_def)
next
  case False
  then show ?thesis
    by (auto simp add: Let_def inside_def)
qed

lemma carve_dirs_descend:
  assumes "inside s (x + dx, y + dy)" "cell m (x + dx, y + dy) = 1" "wf_grid s m"
    "write_cell m (y + dy div 2) (x + dx div 2) 0 = Inr m1"
    "carve f rnd s (x + dx) (y + dy) (m1, n) = Some (Inr st1)"
  shows "carve_dirs f rnd s x y ((dx, dy) # ds) (m, n) = carve_dirs f rnd s x y ds st1"
proof -
  have "cell_at m (y + dy) (x + dx) = Inr (Some 1)"
    using cell_in_range [OF assms(3), of "x + dx" "y + dy"] inside_in_range [OF assms(1)] assms(2)
    by simp
  then show ?thesis
    using assms by (simp add: Let_def inside_def)
qed

lemma carve_terminates:
  assumes sh: "shuffled rnd"
  shows "wf_grid s m \<Longrightarrow> inside s (x, y) \<Longrightarrow> cell m (x, y) = 1 \<Longrightarrow> uncarved s m < f
           \<Longrightarrow> \<exists>st'. carve f rnd s x y (m, n) = Some (Inr st')"
proof (induction f arbitrary: x y m n)
  case 0
  then show ?case by simp
next
  case (Suc f)
  obtain m1 where m1: "write_cell m y x 0 = Inr m1" "grows s m m1" "cell m1 (x, y) = 0"
    using write_inside [OF Suc.prems(1,2)] by blast
  have "uncarved s m1 < uncarved s m"
    using uncarved_less [OF m1(2) Suc.prems(2,3)] m1(3) by simp
  then have u1: "uncarved s m1 < f"
    using Suc.prems(4) by simp
  have loop: "\<exists>st'. carve_dirs f rnd s x y ds (m', n') = Some (Inr st')"
    if "wf_grid s m'" "uncarved s m' < f" "set ds \<subseteq> set directions" for ds m' n'
    using that
  proof (induction ds arbitrary: m' n')
    case Nil
    then show ?case by simp
  next
    case (Cons d ds)
    obtain dx dy where d: "d = (dx, dy)"
      by (cases d)
    have din: "(dx, dy) \<in> set directions"
      using Cons.prems(3) d by simp
    show ?case
    proof (cases "inside s (x + dx, y + dy) \<and> cell m' (x + dx, y + dy) = 1")
      case True
      have ci: "inside s (x + dx div 2, y + dy div 2)"
        using connector_inside [OF din Suc.prems(2)] True by simp
      obtain m2 where m2: "write_cell m' (y + dy div 2) (x + dx div 2) 0 = Inr m2"
        "grows s m' m2" "\<forall>p. p \<noteq> (x + dx div 2, y + dy div 2) \<longrightarrow> cell m2 p = cell m' p"
        using write_inside [OF Cons.prems(1) ci] by blast
      have w2: "cell m2 (x + dx, y + dy) = 1"
        using m2(3) connector_differs(1) [OF din, of x y] True by metis
      have u2: "uncarved s m2 < f"
        using uncarved_mono [OF m2(2)] Cons.prems(2) by simp
      obtain st1 where st1: "carve f rnd s (x + dx) (y + dy) (m2, n') = Some (Inr st1)"
        using Suc.IH [OF grows_wf [OF m2(2)] _ w2 u2] True by blast
      obtain m3 n3 where eq: "st1 = (m3, n3)"
        by (cases st1)
      have "grows s (fst (m2, n')) (fst st1)"
        using carves_grows(1) [OF sh carve_runs(1) [OF st1]] grows_wf [OF m2(2)] True by simp
      then have g3: "grows s m2 m3"
        by (simp add: eq)
      have u3: "uncarved s m3 < f"
        using uncarved_mono [OF g3] u2 by simp
      have "set ds \<subseteq> set directions"
        using Cons.prems(3) by simp
      then obtain st' where "carve_dirs f rnd s x y ds (m3, n3) = Some (Inr st')"
        using Cons.IH [OF grows_wf [OF g3] u3] by blast
      then show ?thesis
        using carve_dirs_descend [OF _ _ Cons.prems(1) m2(1) st1] True d eq by auto
    next
      case False
      have "set ds \<subseteq> set directions"
        using Cons.prems(3) by simp
      then obtain st' where "carve_dirs f rnd s x y ds (m', n') = Some (Inr st')"
        using Cons.IH [OF Cons.prems(1,2)] by blast
      then show ?thesis
        using carve_dirs_skip [OF False Cons.prems(1)] d by auto
    qed
  qed
  have "set (rnd n) \<subseteq> set directions"
    using shuffled_set [OF sh] by simp
  then show ?case
    using loop [OF grows_wf [OF m1(2)] u1] m1(1) by simp
qed

lemma carve_result:
  assumes "shuffled rnd" "wf_grid s m" "inside s (x, y)" "cell m (x, y) = 1" "uncarved s m < f"
  shows "\<exists>m' n'. carve f rnd s x y (m, n) = Some (Inr (m', n')) \<and> grows s m m'
           \<and> cell m' (x, y) = 0 \<and> uncarved s m' < uncarved s m
           \<and> carves rnd s x y (m, n) (m', n')"
proof -
  obtain st' where st': "carve f rnd s x y (m, n) = Some (Inr st')"
    using carve_terminates [OF assms] by blast
  have r: "carves rnd s x y (m, n) st'"
    using carve_runs(1) [OF st'] .
  have g: "grows s m (fst st')" "cell (fst st') (x, y) = 0"
    using carves_grows(1) [OF assms(1) r] assms(2,3) by simp_all
  have "uncarved s (fst st') < uncarved s m"
    using uncarved_less [OF g(1) assms(3,4)] g(2) by simp
  then show ?thesis
    using st' r g by (cases st') auto
qed

section \<open>The whole generator\<close>

lemma wf_all_walls: "wf_grid (int sz) (replicate sz (replicate sz 1))"
  by (simp add: wf_grid_def)

lemma cell_all_walls: "cell (replicate sz (replicate sz 1)) p = 1"
proof (cases "0 \<le> fst p \<and> fst p < int sz \<and> 0 \<le> snd p \<and> snd p < int sz")
  case True
  then have "nat (snd p) < sz" "nat (fst p) < sz"
    by auto
  then show ?thesis
    using cell_in_range(2) [OF wf_all_walls, of "fst p" sz "snd p"] True by simp
next
  case False
  then show ?thesis
    using cell_out_of_range [OF wf_all_walls, of "fst p" sz "snd p"] by simp
qed

lemma carve_dirs_narrow:
  "s \<le> 2 \<Longrightarrow> carve_dirs f rnd s x y ds (m, n) = Some (Inr (m, n))"
proof (induction ds)
  case Nil
  then show ?case by simp
next
  case (Cons d ds)
  obtain dx dy where d: "d = (dx, dy)"
    by (cases d)
  have g: "(0 < x + dx \<and> x + dx < s - 1 \<and> 0 < y + dy \<and> y + dy < s - 1) = False"
    using Cons.prems by arith
  show ?case
    using Cons d by (simp add: Let_def g)
qed

lemma generateMaze_small:
  assumes "sz < 2" "0 < fuel"
  shows "generateMaze fuel rnd sz = Some (Inl TypeError)"
proof -
  obtain f where f: "fuel = Suc f"
    using assms(2) by (cases fuel) auto
  have "write_cell (replicate sz (replicate sz 1)) 1 1 0 = Inl TypeError"
    using assms(1) by (simp add: write_cell_def elem_at_def)
  then show ?thesis
    by (simp add: generateMaze_def f)
qed

lemma generateMaze_two:
  assumes "0 < fuel"
  shows "\<exists>m. generateMaze fuel rnd 2 = Some (Inr m)"
proof -
  obtain f where f: "fuel = Suc f"
    using assms by (cases fuel) auto
  let ?m0 = "replicate 2 (replicate 2 (1::int))"
  have wf0: "wf_grid 2 ?m0"
    using wf_all_walls [of 2] by simp
  obtain m1 where m1: "write_cell ?m0 1 1 0 = Inr m1" "wf_grid 2 m1"
    using write_cell_in_range [OF wf0, of 1 1 0] by auto
  have c: "carve fuel rnd 2 1 1 (?m0, 0) = Some (Inr (m1, Suc 0))"
    using m1(1) carve_dirs_narrow [of 2 f rnd 1 1 "rnd 0" m1 "Suc 0"] by (simp add: f)
  obtain m2 where m2: "write_cell m1 1 1 0 = Inr m2" "wf_grid 2 m2"
    using write_cell_in_range [OF m1(2), of 1 1 0] by auto
  obtain m3 where m3: "write_cell m2 0 0 0 = Inr m3"
    using write_cell_in_range [OF m2(2), of 0 0 0] by auto
  show ?thesis
    using c m2(1) m3 by (simp add: generateMaze_def)
qed

lemma generateMaze_large:
  assumes sh: "shuffled rnd" and sz: "3 \<le> sz" and fuel: "sz * sz < fuel"
  shows "\<exists>m1 n m3. carves rnd (int sz) 1 1 (replicate sz (replicate sz 1), 0) (m1, n)
           \<and> grows (int sz) (replicate sz (replicate sz 1)) m1
           \<and> cell m1 (1, 1) = 0
           \<and> generateMaze fuel rnd sz = Some (Inr m3)
           \<and> wf_grid (int sz) m3
           \<and> cell m3 (int sz - 2, int sz - 2) = 0
           \<and> (\<forall>p. p \<noteq> (int sz - 2, int sz - 2) \<longrightarrow> cell m3 p = cell m1 p)"
proof -
  let ?s = "int sz"
  let ?m0 = "replicate sz (replicate sz (1::int))"
  have i1: "inside ?s (1, 1)" and i2: "inside ?s (?s - 2, ?s - 2)"
    using sz by (simp_all add: inside_def)
  have "uncarved ?s ?m0 \<le> sz * sz"
    using uncarved_bound [of ?s ?m0] by simp
  then have "uncarved ?s ?m0 < fuel"
    using fuel by simp
  then obtain m1 n where m1: "carve fuel rnd ?s 1 1 (?m0, 0) = Some (Inr (m1, n))"
    "grows ?s ?m0 m1" "cell m1 (1, 1) = 0" "carves rnd ?s 1 1 (?m0, 0) (m1, n)"
    using carve_result [OF sh wf_all_walls i1 cell_all_walls, of fuel 0] by blast
  obtain m2 where m2: "write_cell m1 1 1 0 = Inr m2" "wf_grid ?s m2"
    "cell m2 (1, 1) = 0" "\<forall>p. p \<noteq> (1, 1) \<longrightarrow> cell m2 p = cell m1 p"
    using write_cell_in_range [OF grows_wf [OF m1(2)], of 1 1 0] inside_in_range [OF i1] by blast
  have same: "cell m2 p = cell m1 p" for p
    using m2(3,4) m1(3) by metis
  obtain m3 where m3: "write_cell m2 (?s - 2) (?s - 2) 0 = Inr m3" "wf_grid ?s m3"
    "cell m3 (?s - 2, ?s - 2) = 0" "\<forall>p. p \<noteq> (?s - 2, ?s - 2) \<longrightarrow> cell m3 p = cell m2 p"
    using write_cell_in_range [OF m2(2), of "?s - 2" "?s - 2" 0] inside_in_range [OF i2] by blast
  have "generateMaze fuel rnd sz = Some (Inr m3)"
    using m1(1) m2(1) m3(1) by (simp add: generateMaze_def)
  then show ?thesis
    using m1 m3 same by auto
qed

section \<open>Every opened cell is connected to the start of the carving\<close>

lemma reach_open: "reach m a b \<Longrightarrow> cell m b \<noteq> 1"
  by (induction rule: reach.induct) auto

lemma reach_grows:
  assumes "grows s m m'" "reach m a b"
  shows "reach m' a b"
  using assms(2)
proof (induction rule: reach.induct)
  case start
  have "cell m' a \<noteq> 1"
    using grows_open [OF assms(1) start.hyps] .
  then show ?case
    by (rule reach.start)
next
  case (step b c)
  have "cell m' c \<noteq> 1"
    using grows_open [OF assms(1) step.hyps(3)] .
  then show ?case
    using reach.step [OF step.IH step.hyps(2)] by blast
qed

lemma reach_trans:
  assumes "reach m a b" "reach m b c"
  shows "reach m a c"
  using assms(2,1)
  by (induction rule: reach.induct) (auto intro: reach.step)

lemma adjacent_connector:
  assumes "(dx, dy) \<in> set directions"
  shows "adjacent (x, y) (x + dx div 2, y + dy div 2)"
    "adjacent (x + dx div 2, y + dy div 2) (x + dx, y + dy)"
  using direction_cases [OF assms] by (auto simp add: adjacent_def)

lemma reach_across:
  assumes "(dx, dy) \<in> set directions" "cell m (x, y) \<noteq> 1"
    "cell m (x + dx div 2, y + dy div 2) \<noteq> 1"
  shows "reach m (x, y) (x + dx div 2, y + dy div 2)"
    "cell m (x + dx, y + dy) \<noteq> 1 \<Longrightarrow> reach m (x, y) (x + dx, y + dy)"
proof -
  show c: "reach m (x, y) (x + dx div 2, y + dy div 2)"
    using reach.step [OF reach.start [OF assms(2)] adjacent_connector(1) [OF assms(1)] assms(3)] .
  show "reach m (x, y) (x + dx, y + dy)" if "cell m (x + dx, y + dy) \<noteq> 1"
    using reach.step [OF c adjacent_connector(2) [OF assms(1)] that] .
qed

lemma carves_connected:
  assumes sh: "shuffled rnd"
  shows "carves rnd s x y st st' \<Longrightarrow> wf_grid s (fst st) \<Longrightarrow> inside s (x, y)
           \<Longrightarrow> cell (fst st) p = 1 \<Longrightarrow> cell (fst st') p \<noteq> 1 \<Longrightarrow> reach (fst st') (x, y) p"
    and "visits rnd s x y ds st st' \<Longrightarrow> wf_grid s (fst st) \<Longrightarrow> inside s (x, y)
           \<Longrightarrow> set ds \<subseteq> set directions \<Longrightarrow> cell (fst st) (x, y) \<noteq> 1
           \<Longrightarrow> cell (fst st) p = 1 \<Longrightarrow> cell (fst st') p \<noteq> 1 \<Longrightarrow> reach (fst st') (x, y) p"
proof (induction arbitrary: p and p rule: carves_visits.inducts)
  case (enter m y x m1 n st')
  obtain m' where m': "write_cell m y x 0 = Inr m'" "grows s m m'" "cell m' (x, y) = 0"
    "\<forall>q. q \<noteq> (x, y) \<longrightarrow> cell m' q = cell m q"
    using write_inside [of s m x y] enter.prems by auto
  then have eq: "m1 = m'"
    using \<open>write_cell m y x 0 = Inr m1\<close> by simp
  show ?case
  proof (cases "p = (x, y)")
    case True
    then show ?thesis
      using enter.prems(4) by (auto intro: reach.start)
  next
    case False
    then have "cell m1 p = 1"
      using m'(4) [rule_format, OF False] eq enter.prems(3) by simp
    moreover have "wf_grid s (fst (m1, Suc n))"
      using m'(2) eq grows_wf by auto
    moreover have "set (rnd n) \<subseteq> set directions"
      using shuffled_set [OF sh] by simp
    moreover have "cell (fst (m1, Suc n)) (x, y) \<noteq> 1"
      using m'(3) eq by simp
    ultimately show ?thesis
      using enter.IH(2) [of p] enter.prems by simp
  qed
next
  case (finish x y st)
  then show ?case by simp
next
  case (skip x dx y dy m ds n st')
  then show ?case by simp
next
  case (descend x dx y dy m m1 n st1 ds st')
  have d: "(dx, dy) \<in> set directions" and ds: "set ds \<subseteq> set directions"
    using descend.prems by simp_all
  have ins: "inside s (x + dx, y + dy)"
    using \<open>inside s (x + dx, y + dy)\<close> .
  have c1: "carves rnd s (x + dx) (y + dy) (m1, n) st1"
    using \<open>carves rnd s (x + dx) (y + dy) (m1, n) st1\<close> .
  have v2: "visits rnd s x y ds st1 st'"
    using \<open>visits rnd s x y ds st1 st'\<close> .
  have ci: "inside s (x + dx div 2, y + dy div 2)"
    using connector_inside [OF d, of s x y] descend.prems(2) ins by blast
  obtain m' where m': "write_cell m (y + dy div 2) (x + dx div 2) 0 = Inr m'" "grows s m m'"
    "cell m' (x + dx div 2, y + dy div 2) = 0"
    "\<forall>q. q \<noteq> (x + dx div 2, y + dy div 2) \<longrightarrow> cell m' q = cell m q"
    using write_inside [OF _ ci, of m] descend.prems by auto
  then have eq: "m1 = m'"
    using \<open>write_cell m (y + dy div 2) (x + dx div 2) 0 = Inr m1\<close> by simp
  have wf1: "wf_grid s (fst (m1, n))"
    using m'(2) eq grows_wf by auto
  have g1: "grows s m1 (fst st1)" and e1: "cell (fst st1) (x + dx, y + dy) = 0"
    using carves_grows(1) [OF sh c1 wf1 ins] by simp_all
  have wf2: "wf_grid s (fst st1)"
    using g1 by (rule grows_wf)
  have g2: "grows s (fst st1) (fst st')"
    using carves_grows(2) [OF sh v2 wf2 descend.prems(2) ds] .
  have o1: "cell (fst st1) (x, y) \<noteq> 1"
    using descend.prems(4) m'(2) g1 eq grows_open by (metis fst_conv)
  have oc: "cell (fst st1) (x + dx div 2, y + dy div 2) \<noteq> 1"
    using m'(3) g1 eq grows_floor by (metis zero_neq_one)
  show ?case
  proof (cases "cell (fst st1) p = 1")
    case True
    then show ?thesis
      using descend.IH(5) [OF wf2 descend.prems(2) ds o1, of p] descend.prems(6) by simp
  next
    case False
    have "reach (fst st1) (x, y) p"
    proof (cases "cell m1 p = 1")
      case True
      have "reach (fst st1) (x + dx, y + dy) p"
        using descend.IH(3) [OF wf1 ins, of p] True False by simp
      moreover have "reach (fst st1) (x, y) (x + dx, y + dy)"
        using reach_across(2) [OF d o1 oc] e1 by simp
      ultimately show ?thesis
        using reach_trans by blast
    next
      case False
      then have "p = (x + dx div 2, y + dy div 2)"
        using m'(4) [rule_format, of p] eq descend.prems(5) by auto
      then show ?thesis
        using reach_across(1) [OF d o1 oc] by simp
    qed
    then show ?thesis
      using reach_grows [OF g2] by simp
  qed
qed

section \<open>Every odd cell inside the border is opened\<close>

lemma closed_grows: "grows s m m' \<Longrightarrow> closed s m p \<Longrightarrow> closed s m' p"
  unfolding closed_def using grows_open by blast

lemma connector_not_odd:
  assumes "(dx, dy) \<in> set directions" "odd x" "odd y"
  shows "\<not> (odd (x + dx div 2) \<and> odd (y + dy div 2))" "odd (x + dx)" "odd (y + dy)"
  using direction_cases [OF assms(1)] assms(2,3) by auto

lemma carves_closed:
  assumes sh: "shuffled rnd"
  shows "carves rnd s x y st st' \<Longrightarrow> wf_grid s (fst st) \<Longrightarrow> inside s (x, y)
           \<Longrightarrow> odd x \<Longrightarrow> odd y
           \<Longrightarrow> closed s (fst st') (x, y)
               \<and> (\<forall>p. odd (fst p) \<and> odd (snd p) \<and> cell (fst st) p = 1 \<and> cell (fst st') p \<noteq> 1
                      \<longrightarrow> closed s (fst st') p)"
    and "visits rnd s x y ds st st' \<Longrightarrow> wf_grid s (fst st) \<Longrightarrow> inside s (x, y)
           \<Longrightarrow> odd x \<Longrightarrow> odd y \<Longrightarrow> set ds \<subseteq> set directions
           \<Longrightarrow> (\<forall>d\<in>set ds. inside s (x + fst d, y + snd d)
                      \<longrightarrow> cell (fst st') (x + fst d, y + snd d) \<noteq> 1)
               \<and> (\<forall>p. odd (fst p) \<and> odd (snd p) \<and> cell (fst st) p = 1 \<and> cell (fst st') p \<noteq> 1
                      \<longrightarrow> closed s (fst st') p)"
proof (induction rule: carves_visits.inducts)
  case (enter m y x m1 n st')
  obtain m' where m': "write_cell m y x 0 = Inr m'" "grows s m m'" "cell m' (x, y) = 0"
    "\<forall>q. q \<noteq> (x, y) \<longrightarrow> cell m' q = cell m q"
    using write_inside [of s m x y] enter.prems by auto
  then have eq: "m1 = m'"
    using \<open>write_cell m y x 0 = Inr m1\<close> by simp
  have wf1: "wf_grid s (fst (m1, Suc n))"
    using m'(2) eq grows_wf by auto
  have sub: "set (rnd n) \<subseteq> set directions"
    using shuffled_set [OF sh] by simp
  have ih: "(\<forall>d\<in>set (rnd n). inside s (x + fst d, y + snd d)
                \<longrightarrow> cell (fst st') (x + fst d, y + snd d) \<noteq> 1)
            \<and> (\<forall>p. odd (fst p) \<and> odd (snd p) \<and> cell m1 p = 1 \<and> cell (fst st') p \<noteq> 1
                \<longrightarrow> closed s (fst st') p)"
    using enter.IH(2) [OF wf1 enter.prems(2,3,4) sub] by simp
  have here: "closed s (fst st') (x, y)"
    using ih shuffled_set [OF sh, of n] by (simp add: closed_def)
  have "closed s (fst st') p"
    if "odd (fst p) \<and> odd (snd p) \<and> cell m p = 1 \<and> cell (fst st') p \<noteq> 1" for p
  proof (cases "p = (x, y)")
    case True
    then show ?thesis
      using here by simp
  next
    case False
    then have "cell m1 p = 1"
      using m'(4) [rule_format, OF False] eq that by simp
    then show ?thesis
      using ih that by blast
  qed
  then show ?case
    using here by simp
next
  case (finish x y st)
  then show ?case by simp
next
  case (skip x dx y dy m ds n st')
  have ds: "set ds \<subseteq> set directions"
    using skip.prems by simp
  have v: "visits rnd s x y ds (m, n) st'"
    using \<open>visits rnd s x y ds (m, n) st'\<close> .
  have g: "grows s m (fst st')"
    using carves_grows(2) [OF sh v skip.prems(1,2) ds] by simp
  have ih: "(\<forall>d\<in>set ds. inside s (x + fst d, y + snd d)
                \<longrightarrow> cell (fst st') (x + fst d, y + snd d) \<noteq> 1)
            \<and> (\<forall>p. odd (fst p) \<and> odd (snd p) \<and> cell (fst (m, n)) p = 1 \<and> cell (fst st') p \<noteq> 1
                \<longrightarrow> closed s (fst st') p)"
    using skip.IH(3) [OF skip.prems(1,2,3,4) ds] .
  have "cell (fst st') (x + dx, y + dy) \<noteq> 1" if i: "inside s (x + dx, y + dy)"
  proof -
    have "cell_at m (y + dy) (x + dx) \<noteq> Inr (Some 1)"
      using skip.IH(1) i by blast
    then have "cell m (x + dx, y + dy) \<noteq> 1"
      using cell_at_is_wall [of s m "x + dx" "y + dy"] skip.prems(1) inside_in_range [OF i]
      by simp
    then show ?thesis
      using grows_open [OF g] by blast
  qed
  then show ?case
    using ih by simp
next
  case (descend x dx y dy m m1 n st1 ds st')
  have d: "(dx, dy) \<in> set directions" and ds: "set ds \<subseteq> set directions"
    using descend.prems by simp_all
  have ins: "inside s (x + dx, y + dy)"
    using \<open>inside s (x + dx, y + dy)\<close> .
  have c1: "carves rnd s (x + dx) (y + dy) (m1, n) st1"
    using \<open>carves rnd s (x + dx) (y + dy) (m1, n) st1\<close> .
  have v2: "visits rnd s x y ds st1 st'"
    using \<open>visits rnd s x y ds st1 st'\<close> .
  have ci: "inside s (x + dx div 2, y + dy div 2)"
    using connector_inside [OF d, of s x y] descend.prems(2) ins by blast
  obtain m' where m': "write_cell m (y + dy div 2) (x + dx div 2) 0 = Inr m'" "grows s m m'"
    "cell m' (x + dx div 2, y + dy div 2) = 0"
    "\<forall>q. q \<noteq> (x + dx div 2, y + dy div 2) \<longrightarrow> cell m' q = cell m q"
    using write_inside [OF _ ci, of m] descend.prems by auto
  then have eq: "m1 = m'"
    using \<open>write_cell m (y + dy div 2) (x + dx div 2) 0 = Inr m1\<close> by simp
  have wf1: "wf_grid s (fst (m1, n))"
    using m'(2) eq grows_wf by auto
  have g1: "grows s m1 (fst st1)" and e1: "cell (fst st1) (x + dx, y + dy) = 0"
    using carves_grows(1) [OF sh c1 wf1 ins] by simp_all
  have wf2: "wf_grid s (fst st1)"
    using g1 by (rule grows_wf)
  have g2: "grows s (fst st1) (fst st')"
    using carves_grows(2) [OF sh v2 wf2 descend.prems(2) ds] .
  have odd': "odd (x + dx)" "odd (y + dy)"
    using connector_not_odd(2,3) [OF d descend.prems(3,4)] by simp_all
  have ih1: "\<forall>p. odd (fst p) \<and> odd (snd p) \<and> cell m1 p = 1 \<and> cell (fst st1) p \<noteq> 1
                \<longrightarrow> closed s (fst st1) p"
    using descend.IH(3) [OF wf1 ins odd'] by simp
  have ih2: "(\<forall>d\<in>set ds. inside s (x + fst d, y + snd d)
                \<longrightarrow> cell (fst st') (x + fst d, y + snd d) \<noteq> 1)
            \<and> (\<forall>p. odd (fst p) \<and> odd (snd p) \<and> cell (fst st1) p = 1 \<and> cell (fst st') p \<noteq> 1
                \<longrightarrow> closed s (fst st') p)"
    using descend.IH(5) [OF wf2 descend.prems(2,3,4) ds] .
  have first: "cell (fst st') (x + dx, y + dy) \<noteq> 1"
    using grows_floor [OF g2 e1] by simp
  have "closed s (fst st') p"
    if p: "odd (fst p) \<and> odd (snd p) \<and> cell m p = 1 \<and> cell (fst st') p \<noteq> 1" for p
  proof (cases "cell (fst st1) p = 1")
    case True
    then show ?thesis
      using ih2 p by blast
  next
    case False
    have np: "p \<noteq> (x + dx div 2, y + dy div 2)"
      using connector_not_odd(1) [OF d descend.prems(3,4)] p by auto
    have "cell m1 p = 1"
      using m'(4) [rule_format, OF np] eq p by simp
    then have "closed s (fst st1) p"
      using ih1 p False by blast
    then show ?thesis
      using closed_grows [OF g2] by blast
  qed
  then show ?case
    using ih2 first by simp
qed

lemma odd_cells_open:
  assumes cl: "\<And>p. odd (fst p) \<Longrightarrow> odd (snd p) \<Longrightarrow> cell m p \<noteq> 1 \<Longrightarrow> closed s m p"
      and st: "cell m (1, 1) \<noteq> 1"
  shows "inside s (2 * int i + 1, 2 * int j + 1) \<Longrightarrow> cell m (2 * int i + 1, 2 * int j + 1) \<noteq> 1"
proof -
  have row: "inside s (2 * int i + 1, 1) \<Longrightarrow> cell m (2 * int i + 1, 1) \<noteq> 1" for i
  proof (induction i)
    case 0
    then show ?case
      using st by simp
  next
    case (Suc i)
    have "inside s (2 * int i + 1, 1)"
      using Suc.prems by (simp add: inside_def)
    then have "cell m (2 * int i + 1, 1) \<noteq> 1"
      using Suc.IH by simp
    then have "closed s m (2 * int i + 1, 1)"
      using cl [of "(2 * int i + 1, 1)"] by simp
    moreover have "(2, 0) \<in> set directions"
      by (simp add: directions_def)
    ultimately have "inside s (2 * int i + 1 + 2, 1) \<longrightarrow> cell m (2 * int i + 1 + 2, 1) \<noteq> 1"
      unfolding closed_def by force
    then show ?case
      using Suc.prems by (simp add: algebra_simps)
  qed
  show "inside s (2 * int i + 1, 2 * int j + 1) \<Longrightarrow> cell m (2 * int i + 1, 2 * int j + 1) \<noteq> 1"
  proof (induction j)
    case 0
    then show ?case
      using row by simp
  next
    case (Suc j)
    have "inside s (2 * int i + 1, 2 * int j + 1)"
      using Suc.prems by (simp add: inside_def)
    then have "cell m (2 * int i + 1, 2 * int j + 1) \<noteq> 1"
      using Suc.IH by simp
    then have "closed s m (2 * int i + 1, 2 * int j + 1)"
      using cl [of "(2 * int i + 1, 2 * int j + 1)"] by simp
    moreover have "(0, 2) \<in> set directions"
      by (simp add: directions_def)
    ultimately have "inside s (2 * int i + 1, 2 * int j + 1 + 2)
        \<longrightarrow> cell m (2 * int i + 1, 2 * int j + 1 + 2) \<noteq> 1"
      unfolding closed_def by force
    then show ?case
      using Suc.prems by (simp add: algebra_simps)
  qed
qed

section \<open>Properties of the generated maze\<close>

lemma generateMaze_cells:
  assumes sh: "shuffled rnd" and sz: "3 \<le> sz" and fuel: "sz * sz < fuel"
  shows "\<exists>m. generateMaze fuel rnd sz = Some (Inr m) \<and> wf_grid (int sz) m
           \<and> cell m (1, 1) = 0 \<and> cell m (int sz - 2, int sz - 2) = 0
           \<and> (\<forall>p. cell m p = 1 \<or> (cell m p = 0 \<and> inside (int sz) p))"
proof -
  let ?s = "int sz"
  let ?m0 = "replicate sz (replicate sz (1::int))"
  obtain m1 n m3 where r: "grows ?s ?m0 m1" "cell m1 (1, 1) = 0"
    "generateMaze fuel rnd sz = Some (Inr m3)" "wf_grid ?s m3"
    "cell m3 (?s - 2, ?s - 2) = 0" "\<forall>p. p \<noteq> (?s - 2, ?s - 2) \<longrightarrow> cell m3 p = cell m1 p"
    using generateMaze_large [OF assms] by blast
  have i2: "inside ?s (?s - 2, ?s - 2)"
    using sz by (simp add: inside_def)
  have c1: "cell m1 p = 1 \<or> (cell m1 p = 0 \<and> inside ?s p)" for p
    using r(1) cell_all_walls [of sz p] unfolding grows_def by metis
  have c3: "cell m3 p = 1 \<or> (cell m3 p = 0 \<and> inside ?s p)" for p
  proof (cases "p = (?s - 2, ?s - 2)")
    case True
    then show ?thesis
      using r(5) i2 by simp
  next
    case False
    then show ?thesis
      using r(6) [rule_format, OF False] c1 [of p] by simp
  qed
  have "cell m3 (1, 1) = 0"
  proof (cases "(1, 1) = (?s - 2, ?s - 2)")
    case True
    then show ?thesis
      using r(5) by simp
  next
    case False
    then show ?thesis
      using r(6) [rule_format, OF False] r(2) by simp
  qed
  then show ?thesis
    using r(3,4,5) c3 by blast
qed

lemma border_is_wall_iff:
  "border_is_wall m \<longleftrightarrow>
     (\<forall>y<length m. \<forall>x<length (m ! y).
        y = 0 \<or> Suc y = length m \<or> x = 0 \<or> Suc x = length (m ! y) \<longrightarrow> m ! y ! x = 1)"
  unfolding border_is_wall_def border_cells_def list_all_iff
  by (auto split: if_splits) (metis length_greater_0_conv)+

lemma generated_border:
  assumes wf: "wf_grid (int sz) m"
      and cells: "\<forall>p. cell m p = 1 \<or> (cell m p = 0 \<and> inside (int sz) p)"
  shows "border_is_wall m" "goal_count m = 0"
proof -
  have len: "length m = sz" and rows: "\<And>y. y < sz \<Longrightarrow> length (m ! y) = sz"
    using wf by (auto simp add: wf_grid_def)
  have at: "m ! y ! x = cell m (int x, int y)" if "y < sz" "x < sz" for x y
    using cell_in_range(2) [OF wf, of "int x" "int y"] that by simp
  show "border_is_wall m"
    unfolding border_is_wall_iff
  proof (intro allI impI)
    fix y x
    assume y: "y < length m" and x: "x < length (m ! y)"
      and b: "y = 0 \<or> Suc y = length m \<or> x = 0 \<or> Suc x = length (m ! y)"
    have yx: "y < sz" "x < sz"
      using y x len rows by auto
    have "\<not> inside (int sz) (int x, int y)"
      using b yx len rows [OF yx(1)] by (auto simp add: inside_def)
    then have "cell m (int x, int y) = 1"
      using cells by blast
    then show "m ! y ! x = 1"
      using at [OF yx] by simp
  qed
  have "v \<noteq> 2" if "v \<in> set (concat m)" for v
  proof -
    have "\<exists>r\<in>set m. v \<in> set r"
      using that by simp
    then obtain r where r: "r \<in> set m" "v \<in> set r"
      by blast
    obtain y where y: "y < length m" "r = m ! y"
      using r(1) by (auto simp add: in_set_conv_nth)
    obtain x where x: "x < length r" "v = r ! x"
      using r(2) by (auto simp add: in_set_conv_nth)
    have yx: "y < sz" "x < sz"
      using y x len rows by auto
    have "v = cell m (int x, int y)"
      using at [OF yx] x y by simp
    then show ?thesis
      using cells [rule_format, of "(int x, int y)"] by auto
  qed
  then have "filter (\<lambda>v. v = 2) (concat m) = []"
    by (auto simp add: filter_empty_conv)
  then show "goal_count m = 0"
    by (simp add: goal_count_def)
qed

lemma generateMaze_connected:
  assumes sh: "shuffled rnd" and od: "odd sz" and sz: "3 \<le> sz" and fuel: "sz * sz < fuel"
  shows "\<exists>m. generateMaze fuel rnd sz = Some (Inr m)
           \<and> (\<forall>p. cell m p \<noteq> 1 \<longrightarrow> reach m (1, 1) p)"
proof -
  let ?s = "int sz"
  let ?m0 = "replicate sz (replicate sz (1::int))"
  obtain m1 n m3 where r: "carves rnd ?s 1 1 (?m0, 0) (m1, n)" "grows ?s ?m0 m1"
    "cell m1 (1, 1) = 0" "generateMaze fuel rnd sz = Some (Inr m3)" "wf_grid ?s m3"
    "cell m3 (?s - 2, ?s - 2) = 0" "\<forall>p. p \<noteq> (?s - 2, ?s - 2) \<longrightarrow> cell m3 p = cell m1 p"
    using generateMaze_large [OF sh sz fuel] by blast
  have i1: "inside ?s (1, 1)"
    using sz by (simp add: inside_def)
  have cc: "\<forall>p. odd (fst p) \<and> odd (snd p) \<and> cell ?m0 p = 1 \<and> cell m1 p \<noteq> 1
              \<longrightarrow> closed ?s m1 p"
    using carves_closed(1) [OF sh r(1) _ i1] wf_all_walls [of sz] by simp
  have cl: "closed ?s m1 p" if "odd (fst p)" "odd (snd p)" "cell m1 p \<noteq> 1" for p
    using cc [rule_format, of p] cell_all_walls [of sz p] that by blast
  have "sz = 2 * ((sz - 3) div 2) + 3"
    using od sz by presburger
  then obtain k where k: "sz = 2 * k + 3"
    by blast
  have e: "(?s - 2, ?s - 2) = (2 * int k + 1, 2 * int k + 1)"
    using k by simp
  have "inside ?s (2 * int k + 1, 2 * int k + 1)"
    using k by (simp add: inside_def)
  then have "cell m1 (2 * int k + 1, 2 * int k + 1) \<noteq> 1"
    using odd_cells_open [of m1 ?s k k] cl r(3) by simp
  then have "cell m1 (?s - 2, ?s - 2) \<noteq> 1"
    unfolding e .
  then have "cell m1 (?s - 2, ?s - 2) = 0"
    using r(2) cell_all_walls [of sz "(?s - 2, ?s - 2)"] unfolding grows_def by metis
  then have same: "cell m3 p = cell m1 p" for p
    using r(6,7) by metis
  then have g: "grows ?s m1 m3"
    using r(5) by (simp add: grows_def)
  have "reach m3 (1, 1) p" if "cell m3 p \<noteq> 1" for p
  proof -
    have "cell m1 p \<noteq> 1"
      using that same by simp
    then have "reach m1 (1, 1) p"
      using carves_connected(1) [OF sh r(1) _ i1, of p] wf_all_walls [of sz]
        cell_all_walls [of sz p] by simp
    then show ?thesis
      using reach_grows [OF g] by simp
  qed
  then show ?thesis
    using r(4) by blast
qed

lemma shuffled_unshuffled: "shuffled unshuffled"
  by (simp add: shuffled_def unshuffled_def)


section \<open>Termination of the generator\<close>

text \<open>
  C8.  The carving terminates for every grid size.  With a depth bound above the grid
  area \<open>generateMaze\<close> returns: a \<open>TypeError\<close> for sizes below 2, where the start
  cell does not exist, and a grid for every other size.  A call of \<open>carve\<close> at a wall
  cell inside the border of a square grid returns when the bound exceeds the number of
  wall cells inside the border; it leaves its cell floor and strictly fewer such wall
  cells.  The loop calls \<open>carve\<close> only for such cells.
\<close>

theorem carve_terminates_on_every_size:
  assumes "shuffled rnd"
  shows "(sz * sz < fuel \<longrightarrow>
            (sz < 2 \<longrightarrow> generateMaze fuel rnd sz = Some (Inl TypeError))
          \<and> (2 \<le> sz \<longrightarrow> (\<exists>m. generateMaze fuel rnd sz = Some (Inr m))))
       \<and> (wf_grid s m \<and> inside s (x, y) \<and> cell m (x, y) = 1 \<and> uncarved s m < fuel \<longrightarrow>
            (\<exists>m' n'. carve fuel rnd s x y (m, n) = Some (Inr (m', n'))
                \<and> cell m' (x, y) = 0 \<and> uncarved s m' < uncarved s m))"
proof (intro conjI impI)
  assume "sz * sz < fuel" "sz < 2"
  then show "generateMaze fuel rnd sz = Some (Inl TypeError)"
    using generateMaze_small [of sz fuel rnd] by simp
next
  assume f: "sz * sz < fuel" and s2: "2 \<le> sz"
  show "\<exists>m. generateMaze fuel rnd sz = Some (Inr m)"
  proof (cases "sz = 2")
    case True
    then show ?thesis
      using generateMaze_two [of fuel rnd] f by simp
  next
    case False
    then have "3 \<le> sz"
      using s2 by simp
    then show ?thesis
      using generateMaze_large [OF assms _ f] by blast
  qed
next
  assume "wf_grid s m \<and> inside s (x, y) \<and> cell m (x, y) = 1 \<and> uncarved s m < fuel"
  then show "\<exists>m' n'. carve fuel rnd s x y (m, n) = Some (Inr (m', n'))
                \<and> cell m' (x, y) = 0 \<and> uncarved s m' < uncarved s m"
    using carve_result [OF assms, of s m x y fuel n] by blast
qed

theorem carve_terminates_on_every_size_witness:
  "generateMaze 1 unshuffled 0 = Some (Inl TypeError)
   \<and> (\<exists>m. generateMaze 82 unshuffled 9 = Some (Inr m))
   \<and> (\<exists>m' n'. carve 10 unshuffled 3 1 1 (replicate 3 (replicate 3 1), 0) = Some (Inr (m', n'))
         \<and> cell m' (1, 1) = 0
         \<and> uncarved 3 m' < uncarved 3 (replicate 3 (replicate 3 1)))"
proof -
  let ?m = "replicate 3 (replicate 3 (1::int))"
  have h: "wf_grid 3 ?m \<and> inside 3 (1, 1) \<and> cell ?m (1, 1) = 1 \<and> uncarved 3 ?m < 10"
    using wf_all_walls [of 3] cell_all_walls [of 3 "(1, 1)"] uncarved_bound [of 3 ?m]
    by (simp add: inside_def)
  have a: "generateMaze 1 unshuffled 0 = Some (Inl TypeError)"
    using carve_terminates_on_every_size [OF shuffled_unshuffled, of 0 1] by simp
  have b: "\<exists>m. generateMaze 82 unshuffled 9 = Some (Inr m)"
    using carve_terminates_on_every_size [OF shuffled_unshuffled, of 9 82] by simp
  have c: "\<exists>m' n'. carve 10 unshuffled 3 1 1 (?m, 0) = Some (Inr (m', n'))
         \<and> cell m' (1, 1) = 0 \<and> uncarved 3 m' < uncarved 3 ?m"
    using carve_terminates_on_every_size [OF shuffled_unshuffled, of _ 10 3 ?m 1 1 0] h
    by blast
  show ?thesis
    using a b c by blast
qed

section \<open>Border and goal cells\<close>

lemma layouts_border_goal:
  "border_is_wall MAZE_LAYOUT" "goal_count MAZE_LAYOUT = 1"
  "border_is_wall MAZE_LAYOUT_3D" "goal_count MAZE_LAYOUT_3D = 1"
  by code_simp+

text \<open>
  C5, as stated, fails for the generator: it only ever writes floor cells, so a generated
  maze has no cell of the goal kind.  The maze a \<open>MazeGame\<close> gets when every shuffle
  leaves the order unchanged:
\<close>

theorem generated_maze_has_no_goal_cell:
  "MazeGame_maze 82 unshuffled = Some (Inr generated_example) \<and> goal_count generated_example = 0"
  by code_simp

text \<open>
  C5, amended.  In each fixed layout and in every generated maze of the game every cell
  of the outer border is a wall.  Each fixed layout has exactly one goal cell.  A
  generated maze has none: its goal is the floor cell \<open>(7, 7)\<close>, where the goal marker
  stands.
\<close>

theorem border_walls_and_goal_cells:
  "border_is_wall MAZE_LAYOUT \<and> goal_count MAZE_LAYOUT = 1
   \<and> border_is_wall MAZE_LAYOUT_3D \<and> goal_count MAZE_LAYOUT_3D = 1
   \<and> (shuffled rnd \<and> 81 < fuel \<longrightarrow>
        (\<exists>m. MazeGame_maze fuel rnd = Some (Inr m)
            \<and> border_is_wall m \<and> goal_count m = 0 \<and> cell m (7, 7) = 0))"
proof -
  have "\<exists>m. MazeGame_maze fuel rnd = Some (Inr m)
            \<and> border_is_wall m \<and> goal_count m = 0 \<and> cell m (7, 7) = 0"
    if sh: "shuffled rnd" and f: "81 < fuel"
  proof -
    obtain m where m: "generateMaze fuel rnd 9 = Some (Inr m)" "wf_grid (int 9) m"
      "cell m (int 9 - 2, int 9 - 2) = 0"
      "\<forall>p. cell m p = 1 \<or> (cell m p = 0 \<and> inside (int 9) p)"
      using generateMaze_cells [OF sh, of 9 fuel] f by auto
    have "border_is_wall m" "goal_count m = 0"
      using generated_border [OF m(2,4)] by simp_all
    then show ?thesis
      using m(1,3) by (simp add: MazeGame_maze_def MAZE_SIZE_3D_def)
  qed
  then show ?thesis
    using layouts_border_goal by blast
qed

theorem border_walls_and_goal_cells_witness:
  "\<exists>m. MazeGame_maze 82 unshuffled = Some (Inr m)
       \<and> border_is_wall m \<and> goal_count m = 0 \<and> cell m (7, 7) = 0"
  using border_walls_and_goal_cells [of unshuffled 82] shuffled_unshuffled by simp

section \<open>Connectedness of the generated maze\<close>

lemma generateMaze_4:
  "generateMaze 17 unshuffled 4 = Some (Inr [[1,1,1,1],[1,0,1,1],[1,1,0,1],[1,1,1,1]])"
  by code_simp

text \<open>
  C4.  In every maze a \<open>MazeGame\<close> generates, whatever the shuffles, every non-wall cell
  can be reached from the start cell \<open>(1, 1)\<close> through orthogonally adjacent non-wall
  cells.  (\<open>generateMaze_connected\<close> shows the same for every odd size from 3 on.  For
  an even size the end cell, cleared after the carving, has only walls around it, as in
  \<open>generateMaze_4\<close>; the game generates mazes of size 9 only.)
\<close>

theorem generated_maze_connected:
  assumes "shuffled rnd" "81 < fuel"
  shows "\<exists>m. MazeGame_maze fuel rnd = Some (Inr m)
           \<and> (\<forall>p. cell m p \<noteq> 1 \<longrightarrow> reach m (1, 1) p)"
  using generateMaze_connected [OF assms(1), of 9 fuel] assms(2)
  by (simp add: MazeGame_maze_def MAZE_SIZE_3D_def)

theorem generated_maze_connected_witness:
  "MazeGame_maze 82 unshuffled = Some (Inr generated_example)
   \<and> reach generated_example (1, 1) (7, 7)"
proof -
  have e: "MazeGame_maze 82 unshuffled = Some (Inr generated_example)"
    by code_simp
  have c: "cell generated_example (7, 7) \<noteq> 1"
    by code_simp
  obtain m where m: "MazeGame_maze 82 unshuffled = Some (Inr m)"
    "\<forall>p. cell m p \<noteq> 1 \<longrightarrow> reach m (1, 1) p"
    using generated_maze_connected [OF shuffled_unshuffled, of 82] by auto
  have "m = generated_example"
    using m(1) e by simp
  then show ?thesis
    using m(2) c e by blast
qed

end
